theory Spec2Isabelle
  imports Main "HOL-Library.Sublist"
begin

section \<open>Python strings\<close>

text \<open>
  A Python \<open>str\<close> is modelled as a \<open>string\<close>. Each \<open>char\<close> stands for the code point of
  the same number (0 to 255), and the character classes below are the ones of Python 3
  (\<open>str.isspace\<close>, \<open>str.lower\<close>, and \<open>\s\<close>, \<open>\d\<close>, \<open>\w\<close> of the \<open>re\<close> module on \<open>str\<close>
  patterns) restricted to that range. Code points above 255 are outside the model.
\<close>

definition isspace :: "char \<Rightarrow> bool" where
  "isspace c = (let n = (of_char c :: nat) in
     (9 \<le> n \<and> n \<le> 13) \<or> (28 \<le> n \<and> n \<le> 32) \<or> n = 133 \<or> n = 160)"

definition isdigit :: "char \<Rightarrow> bool" where
  "isdigit c = (let n = (of_char c :: nat) in 48 \<le> n \<and> n \<le> 57)"

definition ascii_alnum :: "char \<Rightarrow> bool" where
  \<comment> \<open>the class \<open>[A-Za-z0-9]\<close>\<close>
  "ascii_alnum c = (let n = (of_char c :: nat) in
     (48 \<le> n \<and> n \<le> 57) \<or> (65 \<le> n \<and> n \<le> 90) \<or> (97 \<le> n \<and> n \<le> 122))"

definition word_or_hyphen :: "char \<Rightarrow> bool" where
  \<comment> \<open>the class \<open>[\w-]\<close>: alphanumeric code points, the underscore and the hyphen\<close>
  "word_or_hyphen c = (let n = (of_char c :: nat) in
     ascii_alnum c \<or> n = 95 \<or> n = 45 \<or> n = 170 \<or> n = 178 \<or> n = 179 \<or> n = 181 \<or> n = 185
     \<or> n = 186 \<or> (188 \<le> n \<and> n \<le> 190) \<or> (192 \<le> n \<and> n \<le> 214) \<or> (216 \<le> n \<and> n \<le> 246)
     \<or> 248 \<le> n)"

definition lower_char :: "char \<Rightarrow> char" where
  "lower_char c = (let n = (of_char c :: nat) in
     if (65 \<le> n \<and> n \<le> 90) \<or> (192 \<le> n \<and> n \<le> 222 \<and> n \<noteq> 215) then char_of (n + 32) else c)"

definition str_lower :: "string \<Rightarrow> string" where
  "str_lower s = map lower_char s"

definition strip_chars :: "(char \<Rightarrow> bool) \<Rightarrow> string \<Rightarrow> string" where
  "strip_chars p s = rev (dropWhile p (rev (dropWhile p s)))"

definition py_strip :: "string \<Rightarrow> string" where
  \<comment> \<open>\<open>s.strip()\<close>\<close>
  "py_strip s = strip_chars isspace s"

fun str_nat :: "nat \<Rightarrow> string" where
  "str_nat n = (if n < 10 then [char_of (48 + n)] else str_nat (n div 10) @ [char_of (48 + n mod 10)])"

definition py_str :: "int \<Rightarrow> string" where
  \<comment> \<open>\<open>str(i)\<close> of an integer\<close>
  "py_str i = (if i < 0 then CHR ''-'' # str_nat (nat (- i)) else str_nat (nat i))"

section \<open>Regular expressions of the heading extractor\<close>

text \<open>
  Each pattern is used with \<open>re.match\<close> and is anchored at both ends, so a match exists
  or not and the matcher below decides it from left to right. A greedy repetition is
  followed in every pattern by a character outside its class (or by the end), so taking
  the longest run is the only way to match and backtracking adds nothing.
\<close>

definition icase_eq :: "char \<Rightarrow> char \<Rightarrow> bool" where
  \<comment> \<open>a lower-case ASCII letter \<open>p\<close> of a pattern under \<open>(?i)\<close> against the character \<open>c\<close>\<close>
  "icase_eq p c = (c = p \<or> (65 \<le> (of_char c :: nat) \<and> (of_char c :: nat) \<le> 90 \<and> char_of ((of_char c :: nat) + 32) = p))"

fun match_lit_ci :: "string \<Rightarrow> string \<Rightarrow> string option" where
  "match_lit_ci [] s = Some s"
| "match_lit_ci (p # ps) [] = None"
| "match_lit_ci (p # ps) (c # cs) = (if icase_eq p c then match_lit_ci ps cs else None)"

definition plus_class :: "(char \<Rightarrow> bool) \<Rightarrow> string \<Rightarrow> string option" where
  \<comment> \<open>one or more characters of a class, greedy; the rest of the input\<close>
  "plus_class p s = (case s of [] \<Rightarrow> None | c # _ \<Rightarrow> if p c then Some (dropWhile p s) else None)"

definition at_end :: "string \<Rightarrow> bool" where
  \<comment> \<open>\<open>$\<close> without \<open>re.MULTILINE\<close>: the end, or just before a final newline\<close>
  "at_end r = (r = [] \<or> r = [CHR 0x0A])"

definition re_level_tail :: "string \<Rightarrow> char option" where
  \<comment> \<open>\<open>([1-4])([aA]?)$\<close>, giving group 1\<close>
  "re_level_tail r = (case r of [] \<Rightarrow> None
     | d # r' \<Rightarrow>
        if d \<in> set ''1234'' then
          (if at_end (case r' of [] \<Rightarrow> [] | c # t \<Rightarrow> if c = CHR ''a'' \<or> c = CHR ''A'' then t else r')
           then Some d else None)
        else None)"

definition re_heading :: "string \<Rightarrow> char option" where
  \<comment> \<open>\<open>(?i)^heading\s*([1-4])([aA]?)$\<close>\<close>
  "re_heading s = (case match_lit_ci ''heading'' s of None \<Rightarrow> None
     | Some r \<Rightarrow> re_level_tail (dropWhile isspace r))"

definition re_h :: "string \<Rightarrow> char option" where
  \<comment> \<open>\<open>(?i)^h([1-4])([aA]?)$\<close>\<close>
  "re_h s = (case match_lit_ci ''h'' s of None \<Rightarrow> None | Some r \<Rightarrow> re_level_tail r)"

definition CASE_NO_PATTERN :: "string \<Rightarrow> bool" where
  \<comment> \<open>\<open>(?i)^case\s+no\.?\s+[\w-]+$\<close>\<close>
  "CASE_NO_PATTERN s = (case match_lit_ci ''case'' s of None \<Rightarrow> False
     | Some r1 \<Rightarrow> (case plus_class isspace r1 of None \<Rightarrow> False
     | Some r2 \<Rightarrow> (case match_lit_ci ''no'' r2 of None \<Rightarrow> False
     | Some r3 \<Rightarrow> (case plus_class isspace (case r3 of [] \<Rightarrow> [] | c # t \<Rightarrow> if c = CHR ''.'' then t else r3) of
         None \<Rightarrow> False
     | Some r4 \<Rightarrow> (case plus_class word_or_hyphen r4 of None \<Rightarrow> False
     | Some r5 \<Rightarrow> at_end r5)))))"

definition PAGE_NUMBER_PATTERN :: "string \<Rightarrow> bool" where
  \<comment> \<open>\<open>^\d+(\s+of\s+\d+)?$\<close> with \<open>re.IGNORECASE\<close>\<close>
  "PAGE_NUMBER_PATTERN s = (case plus_class isdigit s of None \<Rightarrow> False
     | Some r1 \<Rightarrow>
        (case plus_class isspace r1 of None \<Rightarrow> False
         | Some r2 \<Rightarrow> (case match_lit_ci ''of'' r2 of None \<Rightarrow> False
         | Some r3 \<Rightarrow> (case plus_class isspace r3 of None \<Rightarrow> False
         | Some r4 \<Rightarrow> (case plus_class isdigit r4 of None \<Rightarrow> False
         | Some r5 \<Rightarrow> at_end r5))))
        \<or> at_end r1)"

section \<open>Paragraph classification\<close>

definition HEADING_STYLE_LEVELS :: "(string \<times> int) list" where
  "HEADING_STYLE_LEVELS =
     [(''heading1'', 1), (''h1'', 1), (''heading2'', 2), (''h2'', 2), (''heading3'', 3),
      (''h3'', 3), (''heading4'', 4), (''heading4a'', 4), (''h4'', 4), (''h4a'', 4)]"

definition digit_value :: "char \<Rightarrow> int" where
  \<comment> \<open>\<open>int(match.group(1))\<close> for a one-digit group\<close>
  "digit_value d = int (of_char d) - 48"

definition heading_level :: "string option \<Rightarrow> int option" where
  "heading_level style = (case style of None \<Rightarrow> None
     | Some s \<Rightarrow>
        if s = [] then None
        else (case map_of HEADING_STYLE_LEVELS (str_lower s) of Some l \<Rightarrow> Some l
          | None \<Rightarrow>
             (case (case re_heading s of Some d \<Rightarrow> Some d | None \<Rightarrow> re_h s) of
                Some d \<Rightarrow> Some (min (digit_value d) 4)
              | None \<Rightarrow> None)))"

definition should_skip_paragraph :: "string \<Rightarrow> bool" where
  "should_skip_paragraph text =
     (if py_strip text = [] then True
      else if CASE_NO_PATTERN (py_strip text) then True
      else if PAGE_NUMBER_PATTERN (py_strip text) then True
      else False)"

function sub_non_alnum :: "string \<Rightarrow> string" where
  \<comment> \<open>\<open>re.sub(r"[^A-Za-z0-9]+", "-", s)\<close>\<close>
  "sub_non_alnum [] = []"
| "sub_non_alnum (c # cs) =
     (if ascii_alnum c then c # sub_non_alnum cs
      else CHR ''-'' # sub_non_alnum (dropWhile (\<lambda>x. \<not> ascii_alnum x) cs))"
  by pat_completeness auto
termination
  by (relation "measure length") (auto simp: length_dropWhile_le less_Suc_eq_le)

definition slugify :: "string \<Rightarrow> string" where
  "slugify text =
     (let cleaned = strip_chars (\<lambda>c. c = CHR ''-'') (sub_non_alnum (str_lower (py_strip text)))
      in if cleaned = [] then ''section'' else cleaned)"

section \<open>Sections\<close>

text \<open>
  The dataclass \<open>Section\<close> is mutable and shared: while the tree is built, a section is at
  once an element of its parent's \<open>children\<close> list and an element of the stack, and
  appending to its lists is seen through both. The builder is therefore modelled on an
  explicit store: an object is a \<open>section_obj\<close> whose children are addresses, the store is
  the list of all objects created so far, and the address of an object is its index.
  The value the builder returns is read back from the store as a tree, \<open>Section\<close>.
\<close>

record section_obj =
  title :: string
  level :: int
  content :: "string list"
  children :: "nat list"

datatype Section =
  Section (title_of: string) (level_of: int) (content_of: "string list") (children_of: "Section list")

type_synonym store = "section_obj list"

record build_state =
  heap :: store
  stack :: "nat list"

datatype py_error = IndexError

text \<open>The address of the object bound to the variable \<open>root\<close>.\<close>

definition root :: nat where
  "root = 0"

definition init_state :: build_state where
  \<comment> \<open>\<open>root = Section(title="root", level=0); stack = [root]\<close>\<close>
  "init_state = \<lparr>heap = [\<lparr>title = ''root'', level = 0, content = [], children = []\<rparr>], stack = [root]\<rparr>"

function pop_while :: "store \<Rightarrow> nat list \<Rightarrow> int \<Rightarrow> nat list" where
  \<comment> \<open>\<open>while stack and stack[-1].level >= level: stack.pop()\<close>; the top of the stack is the last element\<close>
  "pop_while h stk l =
     (if stk \<noteq> [] \<and> level (h ! last stk) \<ge> l then pop_while h (butlast stk) l else stk)"
  by pat_completeness auto
termination
  by (relation "measure (\<lambda>(h, stk, l). length stk)") auto

declare pop_while.simps [simp del]

definition truthy :: "int option \<Rightarrow> bool" where
  \<comment> \<open>\<open>if level:\<close> is false for \<open>None\<close> and for \<open>0\<close>\<close>
  "truthy l = (case l of None \<Rightarrow> False | Some n \<Rightarrow> n \<noteq> 0)"

definition new_section :: "string \<Rightarrow> int \<Rightarrow> section_obj" where
  \<comment> \<open>\<open>Section(title=text or f"Heading{level}", level=level)\<close>\<close>
  "new_section text l =
     \<lparr>title = (if text \<noteq> [] then text else ''Heading'' @ py_str l), level = l, content = [], children = []\<rparr>"

definition step :: "build_state \<Rightarrow> string \<times> string option \<Rightarrow> py_error + build_state" where
  \<comment> \<open>the body of the \<open>for\<close> loop of \<open>_build_sections\<close>\<close>
  "step st p =
     (let text = fst p; style = snd p; lv = heading_level style in
      if truthy lv then
        (let l = the lv;
             stk = pop_while (heap st) (stack st) l;
             parent = (if stk \<noteq> [] then last stk else root);
             a = length (heap st);
             h1 = heap st @ [new_section text l];
             h2 = h1[parent := (h1 ! parent)\<lparr>children := children (h1 ! parent) @ [a]\<rparr>]
         in Inr \<lparr>heap = h2, stack = stk @ [a]\<rparr>)
      else if should_skip_paragraph text then Inr st
      else if stack st = [] then Inl IndexError
      else (let t = last (stack st)
            in Inr (st\<lparr>heap := (heap st)[t := (heap st ! t)\<lparr>content := content (heap st ! t) @ [text]\<rparr>]\<rparr>)))"

fun run :: "build_state \<Rightarrow> (string \<times> string option) list \<Rightarrow> py_error + build_state" where
  \<comment> \<open>the \<open>for\<close> loop: an exception ends it\<close>
  "run st [] = Inr st"
| "run st (p # ps) = (case step st p of Inl e \<Rightarrow> Inl e | Inr st' \<Rightarrow> run st' ps)"

fun read_section :: "nat \<Rightarrow> store \<Rightarrow> nat \<Rightarrow> Section option" where
  \<comment> \<open>the tree below an address; the first argument bounds the depth that is followed\<close>
  "read_section 0 h a = None"
| "read_section (Suc n) h a =
     (if a < length h then
        (case those (map (read_section n h) (children (h ! a))) of
           None \<Rightarrow> None
         | Some cs \<Rightarrow> Some (Section (title (h ! a)) (level (h ! a)) (content (h ! a)) cs))
      else None)"

definition build_sections :: "(string \<times> string option) list \<Rightarrow> py_error + Section option" where
  \<comment> \<open>\<open>return root\<close>: the tree at the root address in the final store. \<open>Inr None\<close> would be
      a store whose sections nest deeper than it has objects, which no run produces.\<close>
  "build_sections paragraphs =
     (case run init_state paragraphs of
        Inl e \<Rightarrow> Inl e
      | Inr st \<Rightarrow> Inr (read_section (length (heap st)) (heap st) root))"

section \<open>Properties of states and trees\<close>

definition stack_levels :: "build_state \<Rightarrow> int list" where
  \<comment> \<open>the levels of the stacked sections, bottom first\<close>
  "stack_levels st = map (\<lambda>a. level (heap st ! a)) (stack st)"

definition children_deeper :: "store \<Rightarrow> bool" where
  \<comment> \<open>every child is a later object of the store, and of a strictly greater level than its parent\<close>
  "children_deeper h =
     (\<forall>a < length h. \<forall>c \<in> set (children (h ! a)). a < c \<and> c < length h \<and> level (h ! a) < level (h ! c))"

definition wf_state :: "build_state \<Rightarrow> bool" where
  "wf_state st =
     (stack st \<noteq> [] \<and> hd (stack st) = root \<and> heap st \<noteq> [] \<and> level (heap st ! root) = 0
      \<and> (\<forall>a \<in> set (stack st). a < length (heap st))
      \<and> sorted_wrt (<) (stack_levels st)
      \<and> children_deeper (heap st))"

fun deeper_children :: "Section \<Rightarrow> bool" where
  \<comment> \<open>along every path of the tree, a child's level is strictly greater than its parent's\<close>
  "deeper_children (Section t l c cs) = (\<forall>ch \<in> set cs. l < level_of ch \<and> deeper_children ch)"

definition headings :: "(string \<times> string option) list \<Rightarrow> (string \<times> int) list" where
  \<comment> \<open>the heading paragraphs of a sequence, in order: text and level\<close>
  "headings ps = map (\<lambda>p. (fst p, the (heading_level (snd p)))) (filter (\<lambda>p. truthy (heading_level (snd p))) ps)"

definition heading_title :: "string \<times> int \<Rightarrow> string" where
  "heading_title p = title (new_section (fst p) (snd p))"

definition level_store :: "int list \<Rightarrow> store" where
  \<comment> \<open>a store with the given levels and nothing else\<close>
  "level_store L = map (\<lambda>l. \<lparr>title = [], level = l, content = [], children = []\<rparr>) L"

definition shape :: "build_state \<Rightarrow> nat list \<Rightarrow> int list \<Rightarrow> nat list list \<Rightarrow> string list \<Rightarrow> bool" where
  \<comment> \<open>a well-formed state up to the contents of its sections\<close>
  "shape st S L C T =
     (wf_state st \<and> stack st = S \<and> map level (heap st) = L \<and> map children (heap st) = C
      \<and> map title (heap st) = T)"

section \<open>The cover generator\<close>


datatype cover_error =
    PlaceholderNotFound string
  | MissingValue string
  | InvalidXML string
  | ParserRefused
  | DocumentXmlMissing
  | UnicodeDecodeError
  | UnicodeEncodeError
  | EntryUnreadable
  | BadZipFile
  | TemplateNotFound
  | PathCollision

definition escape_char :: "char \<Rightarrow> string" where
  "escape_char c =
     (if c = CHR ''&'' then ''&amp;''
      else if c = CHR ''<'' then ''&lt;''
      else if c = CHR ''>'' then ''&gt;''
      else if c = CHR 0x22 then ''&quot;''
      else if c = CHR 0x27 then ''&#x27;''
      else [c])"

definition html_escape :: "string \<Rightarrow> string" where
  \<comment> \<open>\<open>html.escape(s)\<close> with \<open>quote=True\<close>. The library replaces \<open>&\<close> first and then the other
      four characters, none of which occurs in a replacement text, so the result is the
      character-wise one.\<close>
  "html_escape s = concat (map escape_char s)"

definition close_tag :: string where
  "close_tag = ''</w:t>''"

definition not_gt :: "char \<Rightarrow> bool" where
  \<comment> \<open>the class \<open>[^>]\<close>\<close>
  "not_gt c = (c \<noteq> CHR ''>'')"

definition match_here :: "string \<Rightarrow> string \<Rightarrow> (string \<times> string) option" where
  \<comment> \<open>the pattern \<open>(<w:t[^>]*>)PLACEHOLDER(</w:t>)\<close> matched at the start of \<open>s\<close>: group 1 and
      the text after the match. \<open>[^>]*\<close> is greedy and must be followed by \<open>>\<close>, so it takes
      exactly the characters before the next \<open>>\<close>; group 2 is always \<open></w:t>\<close>.\<close>
  "match_here placeholder s =
     (if prefix ''<w:t'' s then
        (case dropWhile not_gt (drop 4 s) of
           [] \<Rightarrow> None
         | g # r \<Rightarrow>
            if prefix (placeholder @ close_tag) r
            then Some (''<w:t'' @ takeWhile not_gt (drop 4 s) @ [g],
                       drop (length (placeholder @ close_tag)) r)
            else None)
      else None)"

function finditer :: "string \<Rightarrow> string \<Rightarrow> string list" where
  \<comment> \<open>\<open>pattern.finditer(xml_text)\<close>: the matches from left to right, none overlapping an
      earlier one; each match is given by its group 1\<close>
  "finditer p [] = []"
| "finditer p (c # cs) =
     (case match_here p (c # cs) of
        Some (g, r) \<Rightarrow> g # finditer p r
      | None \<Rightarrow> finditer p cs)"
  by pat_completeness auto
termination
proof (relation "measure (\<lambda>(p, s). length s)", goal_cases)
  case 1
  show ?case by simp
next
  case (3 p c cs x g r)
  then have "match_here p (c # cs) = Some (g, r)" by simp
  then obtain d r1 where d: "dropWhile not_gt (drop 4 (c # cs)) = d # r1"
    and r: "r = drop (length (p @ close_tag)) r1"
    by (auto simp: match_here_def split: if_splits list.splits)
  have "length (dropWhile not_gt (drop 4 (c # cs))) \<le> length (drop 4 (c # cs))"
    by (rule length_dropWhile_le)
  with d have "length r1 < length (c # cs)" by simp
  with r show ?case by simp
next
  case (2 p c cs)
  show ?case by simp
qed

function re_sub :: "string \<Rightarrow> string \<Rightarrow> string \<Rightarrow> string" where
  \<comment> \<open>\<open>pattern.sub(lambda m: f"{m.group(1)}{escaped_value}{m.group(2)}", xml_text)\<close>\<close>
  "re_sub p e [] = []"
| "re_sub p e (c # cs) =
     (case match_here p (c # cs) of
        Some (g, r) \<Rightarrow> g @ e @ close_tag @ re_sub p e r
      | None \<Rightarrow> c # re_sub p e cs)"
  by pat_completeness auto
termination
proof (relation "measure (\<lambda>(p, e, s). length s)", goal_cases)
  case 1
  show ?case by simp
next
  case (3 p e c cs x g r)
  then have "match_here p (c # cs) = Some (g, r)" by simp
  then obtain d r1 where d: "dropWhile not_gt (drop 4 (c # cs)) = d # r1"
    and r: "r = drop (length (p @ close_tag)) r1"
    by (auto simp: match_here_def split: if_splits list.splits)
  have "length (dropWhile not_gt (drop 4 (c # cs))) \<le> length (drop 4 (c # cs))"
    by (rule length_dropWhile_le)
  with d have "length r1 < length (c # cs)" by simp
  with r show ?case by simp
next
  case (2 p e c cs)
  show ?case by simp
qed

definition scoped_replace :: "string \<Rightarrow> string \<Rightarrow> string \<Rightarrow> cover_error + string \<times> nat" where
  "scoped_replace xml_text placeholder replacement =
     (let matches = finditer placeholder xml_text in
      if matches = [] then Inl (PlaceholderNotFound placeholder)
      else Inr (re_sub placeholder (html_escape replacement) xml_text, length matches))"





section \<open>Archives and the file system\<close>






record args =
  template :: string
  "output" :: string
  case_number :: string
  filing_name :: string
  judge :: string
  dry_run :: bool







section \<open>Heading levels\<close>

lemma table_levels: "map_of HEADING_STYLE_LEVELS k = Some l \<Longrightarrow> 1 \<le> l \<and> l \<le> 4"
  by (simp add: HEADING_STYLE_LEVELS_def split: if_splits)

lemma re_level_tail_digit: "re_level_tail r = Some d \<Longrightarrow> d \<in> set ''1234''"
  by (auto simp: re_level_tail_def split: list.splits if_splits)

lemma digit_value_range: "d \<in> set ''1234'' \<Longrightarrow> 1 \<le> digit_value d \<and> digit_value d \<le> 4"
  by (auto simp: digit_value_def)

lemma regex_group_digit:
  "(case re_heading s of Some d \<Rightarrow> Some d | None \<Rightarrow> re_h s) = Some d \<Longrightarrow> d \<in> set ''1234''"
  by (auto simp: re_heading_def re_h_def split: option.splits dest: re_level_tail_digit)

lemma heading_level_range: "heading_level style = Some l \<Longrightarrow> 1 \<le> l \<and> l \<le> 4"
proof -
  assume a: "heading_level style = Some l"
  then obtain s where s: "style = Some s" "s \<noteq> []"
    by (auto simp: heading_level_def split: option.splits if_splits)
  show ?thesis
  proof (cases "map_of HEADING_STYLE_LEVELS (str_lower s)")
    case (Some l')
    with a s have "l = l'" by (simp add: heading_level_def)
    with Some show ?thesis using table_levels by blast
  next
    case None
    with a s obtain d where d: "(case re_heading s of Some d \<Rightarrow> Some d | None \<Rightarrow> re_h s) = Some d"
      and l: "l = min (digit_value d) 4"
      by (auto simp: heading_level_def split: option.splits)
    from regex_group_digit[OF d] have "1 \<le> digit_value d \<and> digit_value d \<le> 4"
      by (rule digit_value_range)
    with l show ?thesis by simp
  qed
qed

lemma truthy_heading: "truthy (heading_level style) \<longleftrightarrow> (\<exists>l. heading_level style = Some l)"
  using heading_level_range[of style] by (auto simp: truthy_def split: option.splits)

subsection \<open>The styles the regular expressions accept\<close>

lemma icase_eq_letter:
  assumes "97 \<le> (of_char p :: nat)" and "(of_char p :: nat) \<le> 122"
  shows "icase_eq p c \<longleftrightarrow> c = p \<or> c = char_of ((of_char p :: nat) - 32)"
proof -
  have lt: "(of_char c :: nat) < 256" by (rule nat_of_char_less_256)
  have "65 \<le> (of_char c :: nat) \<and> (of_char c :: nat) \<le> 90 \<and> char_of ((of_char c :: nat) + 32) = p
        \<longleftrightarrow> c = char_of ((of_char p :: nat) - 32)"
  proof
    assume a: "65 \<le> (of_char c :: nat) \<and> (of_char c :: nat) \<le> 90 \<and> char_of ((of_char c :: nat) + 32) = p"
    then have "(of_char p :: nat) = ((of_char c :: nat) + 32) mod 256" by (metis of_char_of)
    with a have "(of_char p :: nat) = of_char c + 32" by simp
    then have "(of_char c :: nat) = of_char p - 32" by simp
    then show "c = char_of ((of_char p :: nat) - 32)" by (metis char_of_char)
  next
    assume a: "c = char_of ((of_char p :: nat) - 32)"
    then have n: "(of_char c :: nat) = of_char p - 32" using assms by (simp add: of_char_of)
    with assms have "65 \<le> (of_char c :: nat) \<and> (of_char c :: nat) \<le> 90" by arith
    moreover from n assms have "(of_char c :: nat) + 32 = of_char p" by arith
    then have "char_of ((of_char c :: nat) + 32) = p" by simp
    ultimately show "65 \<le> (of_char c :: nat) \<and> (of_char c :: nat) \<le> 90 \<and> char_of ((of_char c :: nat) + 32) = p"
      by simp
  qed
  then show ?thesis unfolding icase_eq_def by blast
qed

lemma icase_eq_letters:
  "icase_eq CHR ''h'' c \<longleftrightarrow> c = CHR ''h'' \<or> c = CHR ''H''"
  "icase_eq CHR ''e'' c \<longleftrightarrow> c = CHR ''e'' \<or> c = CHR ''E''"
  "icase_eq CHR ''a'' c \<longleftrightarrow> c = CHR ''a'' \<or> c = CHR ''A''"
  "icase_eq CHR ''d'' c \<longleftrightarrow> c = CHR ''d'' \<or> c = CHR ''D''"
  "icase_eq CHR ''i'' c \<longleftrightarrow> c = CHR ''i'' \<or> c = CHR ''I''"
  "icase_eq CHR ''n'' c \<longleftrightarrow> c = CHR ''n'' \<or> c = CHR ''N''"
  "icase_eq CHR ''g'' c \<longleftrightarrow> c = CHR ''g'' \<or> c = CHR ''G''"
proof -
  have u: "char_of (72::nat) = CHR ''H''" "char_of (69::nat) = CHR ''E''" "char_of (65::nat) = CHR ''A''"
    "char_of (68::nat) = CHR ''D''" "char_of (73::nat) = CHR ''I''" "char_of (78::nat) = CHR ''N''"
    "char_of (71::nat) = CHR ''G''"
    by code_simp+
  show "icase_eq CHR ''h'' c \<longleftrightarrow> c = CHR ''h'' \<or> c = CHR ''H''"
    "icase_eq CHR ''e'' c \<longleftrightarrow> c = CHR ''e'' \<or> c = CHR ''E''"
    "icase_eq CHR ''a'' c \<longleftrightarrow> c = CHR ''a'' \<or> c = CHR ''A''"
    "icase_eq CHR ''d'' c \<longleftrightarrow> c = CHR ''d'' \<or> c = CHR ''D''"
    "icase_eq CHR ''i'' c \<longleftrightarrow> c = CHR ''i'' \<or> c = CHR ''I''"
    "icase_eq CHR ''n'' c \<longleftrightarrow> c = CHR ''n'' \<or> c = CHR ''N''"
    "icase_eq CHR ''g'' c \<longleftrightarrow> c = CHR ''g'' \<or> c = CHR ''G''"
    by (simp_all add: icase_eq_letter u)
qed

lemma lower_char_letter:
  assumes "97 \<le> (of_char p :: nat)" and "(of_char p :: nat) \<le> 122"
  shows "lower_char c = p \<longleftrightarrow> icase_eq p c"
proof -
  have lt: "(of_char c :: nat) < 256" by (rule nat_of_char_less_256)
  consider (up) "65 \<le> (of_char c :: nat) \<and> (of_char c :: nat) \<le> 90"
    | (hi) "192 \<le> (of_char c :: nat) \<and> (of_char c :: nat) \<le> 222 \<and> (of_char c :: nat) \<noteq> 215"
    | (other) "\<not> (65 \<le> (of_char c :: nat) \<and> (of_char c :: nat) \<le> 90)"
        "\<not> (192 \<le> (of_char c :: nat) \<and> (of_char c :: nat) \<le> 222 \<and> (of_char c :: nat) \<noteq> 215)"
    by blast
  then show ?thesis
  proof cases
    case up
    then have "c \<noteq> p" using assms by auto
    with up show ?thesis by (simp add: lower_char_def icase_eq_def Let_def)
  next
    case hi
    then have l: "lower_char c = char_of ((of_char c :: nat) + 32)" by (simp add: lower_char_def Let_def)
    from hi have "(of_char (lower_char c) :: nat) = of_char c + 32" unfolding l by (simp add: of_char_of)
    with hi assms have "lower_char c \<noteq> p" by auto
    moreover from hi assms have "\<not> icase_eq p c" by (auto simp: icase_eq_def)
    ultimately show ?thesis by simp
  next
    case other
    then show ?thesis by (auto simp: lower_char_def icase_eq_def Let_def)
  qed
qed

lemma lower_char_low:
  assumes "(of_char p :: nat) < 65"
  shows "lower_char c = p \<longleftrightarrow> c = p"
proof -
  consider (up) "(65 \<le> (of_char c :: nat) \<and> (of_char c :: nat) \<le> 90)
       \<or> (192 \<le> (of_char c :: nat) \<and> (of_char c :: nat) \<le> 222 \<and> (of_char c :: nat) \<noteq> 215)"
    | (other) "\<not> ((65 \<le> (of_char c :: nat) \<and> (of_char c :: nat) \<le> 90)
       \<or> (192 \<le> (of_char c :: nat) \<and> (of_char c :: nat) \<le> 222 \<and> (of_char c :: nat) \<noteq> 215))"
    by blast
  then show ?thesis
  proof cases
    case up
    then have l: "lower_char c = char_of ((of_char c :: nat) + 32)" by (simp add: lower_char_def Let_def)
    from up have "(of_char (lower_char c) :: nat) = of_char c + 32" unfolding l by (auto simp: of_char_of)
    with up assms have "lower_char c \<noteq> p" "c \<noteq> p" by auto
    then show ?thesis by simp
  next
    case other
    then show ?thesis by (auto simp: lower_char_def Let_def)
  qed
qed

lemma match_lit_ci_iff:
  "match_lit_ci p s = Some r \<longleftrightarrow> (\<exists>h. s = h @ r \<and> list_all2 icase_eq p h)"
proof (induction p s rule: match_lit_ci.induct)
  case (1 s)
  then show ?case by auto
next
  case (2 p ps)
  then show ?case by (auto simp: list_all2_Cons1)
next
  case (3 p ps c cs)
  show ?case
  proof (cases "icase_eq p c")
    case True
    with 3 show ?thesis by (auto simp: list_all2_Cons1 Cons_eq_append_conv)
  next
    case False
    then show ?thesis by (auto simp: list_all2_Cons1 Cons_eq_append_conv)
  qed
qed

lemma lit_heading:
  "list_all2 icase_eq ''heading'' h \<longleftrightarrow>
   list_all2 (\<lambda>c v. c \<in> set v) h [''hH'', ''eE'', ''aA'', ''dD'', ''iI'', ''nN'', ''gG'']"
  by (auto simp: list_all2_Cons1 list_all2_Cons2 icase_eq_letters)

lemma lit_h:
  "list_all2 icase_eq ''h'' h \<longleftrightarrow> list_all2 (\<lambda>c v. c \<in> set v) h [''hH'']"
  by (auto simp: list_all2_Cons1 list_all2_Cons2 icase_eq_letters)

lemma re_level_tail_iff:
  "re_level_tail r = Some d \<longleftrightarrow>
     d \<in> set ''1234'' \<and> (\<exists>a n. r = d # a @ n \<and> a \<in> set [[], ''a'', ''A''] \<and> n \<in> set [[], [CHR 0x0A]])"
proof
  assume a: "re_level_tail r = Some d"
  then obtain r' where r: "r = d # r'" and d: "d \<in> set ''1234''"
    and e: "at_end (case r' of [] \<Rightarrow> [] | c # t \<Rightarrow> if c = CHR ''a'' \<or> c = CHR ''A'' then t else r')"
    by (auto simp: re_level_tail_def split: list.splits if_splits)
  have "\<exists>a n. r' = a @ n \<and> a \<in> set [[], ''a'', ''A''] \<and> n \<in> set [[], [CHR 0x0A]]"
  proof (cases r')
    case Nil
    then show ?thesis by simp
  next
    case (Cons c t)
    show ?thesis
    proof (cases "c = CHR ''a'' \<or> c = CHR ''A''")
      case True
      with e Cons have "t = [] \<or> t = [CHR 0x0A]" by (simp add: at_end_def)
      with True Cons have "r' = [c] @ t \<and> [c] \<in> set [[], ''a'', ''A''] \<and> t \<in> set [[], [CHR 0x0A]]"
        by auto
      then show ?thesis by blast
    next
      case False
      with e Cons have "r' = [] \<or> r' = [CHR 0x0A]" by (simp add: at_end_def)
      then have "r' = [] @ r' \<and> [] \<in> set [[], ''a'', ''A''] \<and> r' \<in> set [[], [CHR 0x0A]]"
        by auto
      then show ?thesis by blast
    qed
  qed
  with r d show "d \<in> set ''1234'' \<and> (\<exists>a n. r = d # a @ n \<and> a \<in> set [[], ''a'', ''A''] \<and> n \<in> set [[], [CHR 0x0A]])"
    by blast
next
  assume "d \<in> set ''1234'' \<and> (\<exists>a n. r = d # a @ n \<and> a \<in> set [[], ''a'', ''A''] \<and> n \<in> set [[], [CHR 0x0A]])"
  then obtain a n where d: "d \<in> set ''1234''" and r: "r = d # a @ n"
    and a: "a = [] \<or> a = ''a'' \<or> a = ''A''" and n: "n = [] \<or> n = [CHR 0x0A]" by auto
  from a n have "at_end (case a @ n of [] \<Rightarrow> [] | c # t \<Rightarrow> if c = CHR ''a'' \<or> c = CHR ''A'' then t else a @ n)"
    by (auto simp: at_end_def)
  with d show "re_level_tail r = Some d" unfolding r by (simp add: re_level_tail_def)
qed

lemma re_h_iff:
  "re_h s = Some d \<longleftrightarrow>
     (\<exists>h a n. s = h @ d # a @ n \<and> list_all2 (\<lambda>c v. c \<in> set v) h [''hH'']
        \<and> d \<in> set ''1234'' \<and> a \<in> set [[], ''a'', ''A''] \<and> n \<in> set [[], [CHR 0x0A]])"
proof -
  have "re_h s = Some d \<longleftrightarrow> (\<exists>r. match_lit_ci ''h'' s = Some r \<and> re_level_tail r = Some d)"
    by (auto simp: re_h_def split: option.splits)
  also have "\<dots> \<longleftrightarrow> (\<exists>r h. s = h @ r \<and> list_all2 (\<lambda>c v. c \<in> set v) h [''hH'']
       \<and> d \<in> set ''1234'' \<and> (\<exists>a n. r = d # a @ n \<and> a \<in> set [[], ''a'', ''A''] \<and> n \<in> set [[], [CHR 0x0A]]))"
    unfolding match_lit_ci_iff lit_h re_level_tail_iff by blast
  also have "\<dots> \<longleftrightarrow> (\<exists>h a n. s = h @ d # a @ n \<and> list_all2 (\<lambda>c v. c \<in> set v) h [''hH'']
        \<and> d \<in> set ''1234'' \<and> a \<in> set [[], ''a'', ''A''] \<and> n \<in> set [[], [CHR 0x0A]])"
    by blast
  finally show ?thesis .
qed

lemma digit_not_space: "d \<in> set ''1234'' \<Longrightarrow> \<not> isspace d"
  by (auto simp: isspace_def)

lemma dropWhile_space_iff:
  assumes "\<not> isspace d"
  shows "dropWhile isspace r = d # t \<longleftrightarrow> (\<exists>w. r = w @ d # t \<and> (\<forall>c \<in> set w. isspace c))"
proof
  assume a: "dropWhile isspace r = d # t"
  have "r = takeWhile isspace r @ dropWhile isspace r" by simp
  with a have "r = takeWhile isspace r @ d # t" by simp
  moreover have "\<forall>c \<in> set (takeWhile isspace r). isspace c" by (auto dest: set_takeWhileD)
  ultimately show "\<exists>w. r = w @ d # t \<and> (\<forall>c \<in> set w. isspace c)" by blast
next
  assume "\<exists>w. r = w @ d # t \<and> (\<forall>c \<in> set w. isspace c)"
  then obtain w where "r = w @ d # t" "\<forall>c \<in> set w. isspace c" by blast
  with assms show "dropWhile isspace r = d # t" by (simp add: dropWhile_append3)
qed

lemma re_heading_iff:
  "re_heading s = Some d \<longleftrightarrow>
     (\<exists>h w a n. s = h @ w @ d # a @ n
        \<and> list_all2 (\<lambda>c v. c \<in> set v) h [''hH'', ''eE'', ''aA'', ''dD'', ''iI'', ''nN'', ''gG'']
        \<and> (\<forall>c \<in> set w. isspace c)
        \<and> d \<in> set ''1234'' \<and> a \<in> set [[], ''a'', ''A''] \<and> n \<in> set [[], [CHR 0x0A]])"
  (is "?L \<longleftrightarrow> ?R")
proof
  assume ?L
  then obtain r where m: "match_lit_ci ''heading'' s = Some r"
    and t: "re_level_tail (dropWhile isspace r) = Some d"
    by (auto simp: re_heading_def split: option.splits)
  from m obtain h where h: "s = h @ r"
    "list_all2 (\<lambda>c v. c \<in> set v) h [''hH'', ''eE'', ''aA'', ''dD'', ''iI'', ''nN'', ''gG'']"
    unfolding match_lit_ci_iff lit_heading by blast
  from t obtain a n where d: "d \<in> set ''1234''" and dr: "dropWhile isspace r = d # a @ n"
    and an: "a \<in> set [[], ''a'', ''A'']" "n \<in> set [[], [CHR 0x0A]]"
    unfolding re_level_tail_iff by blast
  from dr obtain w where w: "r = w @ d # a @ n" "\<forall>c \<in> set w. isspace c"
    unfolding dropWhile_space_iff[OF digit_not_space[OF d]] by blast
  from h w d an show ?R by blast
next
  assume ?R
  then obtain h w a n where s: "s = h @ w @ d # a @ n"
    and h: "list_all2 (\<lambda>c v. c \<in> set v) h [''hH'', ''eE'', ''aA'', ''dD'', ''iI'', ''nN'', ''gG'']"
    and w: "\<forall>c \<in> set w. isspace c"
    and d: "d \<in> set ''1234''" and an: "a \<in> set [[], ''a'', ''A'']" "n \<in> set [[], [CHR 0x0A]]"
    by blast
  from s h have m: "match_lit_ci ''heading'' s = Some (w @ d # a @ n)"
    unfolding match_lit_ci_iff lit_heading by blast
  from w have dr: "dropWhile isspace (w @ d # a @ n) = d # a @ n"
    unfolding dropWhile_space_iff[OF digit_not_space[OF d]] by blast
  from d an have "re_level_tail (d # a @ n) = Some d" unfolding re_level_tail_iff by blast
  with m dr show ?L by (simp add: re_heading_def)
qed

lemma lower_char_letters:
  "lower_char c = CHR ''h'' \<longleftrightarrow> icase_eq CHR ''h'' c"
  "lower_char c = CHR ''e'' \<longleftrightarrow> icase_eq CHR ''e'' c"
  "lower_char c = CHR ''a'' \<longleftrightarrow> icase_eq CHR ''a'' c"
  "lower_char c = CHR ''d'' \<longleftrightarrow> icase_eq CHR ''d'' c"
  "lower_char c = CHR ''i'' \<longleftrightarrow> icase_eq CHR ''i'' c"
  "lower_char c = CHR ''n'' \<longleftrightarrow> icase_eq CHR ''n'' c"
  "lower_char c = CHR ''g'' \<longleftrightarrow> icase_eq CHR ''g'' c"
  by (simp_all add: lower_char_letter)

lemma lower_char_digits:
  "lower_char c = CHR ''1'' \<longleftrightarrow> c = CHR ''1''"
  "lower_char c = CHR ''2'' \<longleftrightarrow> c = CHR ''2''"
  "lower_char c = CHR ''3'' \<longleftrightarrow> c = CHR ''3''"
  "lower_char c = CHR ''4'' \<longleftrightarrow> c = CHR ''4''"
  by (simp_all add: lower_char_low)

lemma icase_eq_digit:
  "\<not> icase_eq CHR ''e'' CHR ''1''" "\<not> icase_eq CHR ''e'' CHR ''2''"
  "\<not> icase_eq CHR ''e'' CHR ''3''" "\<not> icase_eq CHR ''e'' CHR ''4''"
  by (simp_all add: icase_eq_letters)

lemma tail_values:
  "re_level_tail ''1'' = Some CHR ''1''" "re_level_tail ''2'' = Some CHR ''2''"
  "re_level_tail ''3'' = Some CHR ''3''" "re_level_tail ''4'' = Some CHR ''4''"
  "re_level_tail ''4a'' = Some CHR ''4''" "re_level_tail ''4A'' = Some CHR ''4''"
  by code_simp+

lemma table_in_regex:
  assumes "map_of HEADING_STYLE_LEVELS (str_lower s) = Some l"
  shows "\<exists>d. (case re_heading s of Some d \<Rightarrow> Some d | None \<Rightarrow> re_h s) = Some d
            \<and> (d, l) \<in> set [(CHR ''1'', 1), (CHR ''2'', 2), (CHR ''3'', 3), (CHR ''4'', 4)]"
proof -
  have sp: "dropWhile isspace ''1'' = ''1''" "dropWhile isspace ''2'' = ''2''"
    "dropWhile isspace ''3'' = ''3''" "dropWhile isspace ''4'' = ''4''"
    "dropWhile isspace ''4a'' = ''4a''" "dropWhile isspace ''4A'' = ''4A''"
    by code_simp+
  from assms consider
      (a1) "str_lower s = ''heading1''" "l = 1" | (b1) "str_lower s = ''h1''" "l = 1"
    | (a2) "str_lower s = ''heading2''" "l = 2" | (b2) "str_lower s = ''h2''" "l = 2"
    | (a3) "str_lower s = ''heading3''" "l = 3" | (b3) "str_lower s = ''h3''" "l = 3"
    | (a4) "str_lower s = ''heading4''" "l = 4" | (a4a) "str_lower s = ''heading4a''" "l = 4"
    | (b4) "str_lower s = ''h4''" "l = 4" | (b4a) "str_lower s = ''h4a''" "l = 4"
    by (auto simp: HEADING_STYLE_LEVELS_def split: if_splits)
  then show ?thesis
  proof cases
    case a1
    then show ?thesis
      by (auto simp: str_lower_def map_eq_Cons_conv lower_char_letters lower_char_digits
            re_heading_def re_h_def tail_values sp simp del: dropWhile.simps)
  next
    case b1
    then show ?thesis
      by (auto simp: str_lower_def map_eq_Cons_conv lower_char_letters lower_char_digits
            re_heading_def re_h_def tail_values icase_eq_digit)
  next
    case a2
    then show ?thesis
      by (auto simp: str_lower_def map_eq_Cons_conv lower_char_letters lower_char_digits
            re_heading_def re_h_def tail_values sp simp del: dropWhile.simps)
  next
    case b2
    then show ?thesis
      by (auto simp: str_lower_def map_eq_Cons_conv lower_char_letters lower_char_digits
            re_heading_def re_h_def tail_values icase_eq_digit)
  next
    case a3
    then show ?thesis
      by (auto simp: str_lower_def map_eq_Cons_conv lower_char_letters lower_char_digits
            re_heading_def re_h_def tail_values sp simp del: dropWhile.simps)
  next
    case b3
    then show ?thesis
      by (auto simp: str_lower_def map_eq_Cons_conv lower_char_letters lower_char_digits
            re_heading_def re_h_def tail_values icase_eq_digit)
  next
    case a4
    then show ?thesis
      by (auto simp: str_lower_def map_eq_Cons_conv lower_char_letters lower_char_digits
            re_heading_def re_h_def tail_values sp simp del: dropWhile.simps)
  next
    case a4a
    then show ?thesis
      by (auto simp: str_lower_def map_eq_Cons_conv lower_char_letters lower_char_digits
            icase_eq_letters(3) re_heading_def re_h_def tail_values sp simp del: dropWhile.simps)
  next
    case b4
    then show ?thesis
      by (auto simp: str_lower_def map_eq_Cons_conv lower_char_letters lower_char_digits
            re_heading_def re_h_def tail_values icase_eq_digit)
  next
    case b4a
    then show ?thesis
      by (auto simp: str_lower_def map_eq_Cons_conv lower_char_letters lower_char_digits
            icase_eq_letters(3) re_heading_def re_h_def tail_values icase_eq_digit)
  qed
qed

lemma re_h_excludes_heading:
  assumes "re_h s = Some d"
  shows "re_heading s = None"
proof -
  from assms obtain r where m: "match_lit_ci ''h'' s = Some r" and t: "re_level_tail r = Some d"
    by (auto simp: re_h_def split: option.splits)
  from t obtain r' where r: "r = d # r'" and d: "d \<in> set ''1234''"
    by (auto simp: re_level_tail_def split: list.splits if_splits)
  from m obtain c where s: "s = c # r" by (cases s) (auto split: if_splits)
  from d have "\<not> icase_eq CHR ''e'' d" by (auto simp: icase_eq_letters)
  then show ?thesis unfolding s r by (simp add: re_heading_def)
qed

lemma level_of_digit:
  "d \<in> set ''1234'' \<Longrightarrow>
   (d, l) \<in> set [(CHR ''1'', 1), (CHR ''2'', 2), (CHR ''3'', 3), (CHR ''4'', 4)] \<longleftrightarrow> l = min (digit_value d) 4"
  by (auto simp: digit_value_def)

lemma level_functional:
  "(d, l) \<in> set [(CHR ''1'', 1), (CHR ''2'', 2), (CHR ''3'', 3), (CHR ''4'', 4::int)] \<Longrightarrow>
   (d, l') \<in> set [(CHR ''1'', 1), (CHR ''2'', 2), (CHR ''3'', 3), (CHR ''4'', 4)] \<Longrightarrow> l = l'"
  by auto

lemma heading_level_regex:
  "heading_level (Some s) = Some l \<longleftrightarrow>
     (\<exists>d. (case re_heading s of Some d \<Rightarrow> Some d | None \<Rightarrow> re_h s) = Some d
        \<and> (d, l) \<in> set [(CHR ''1'', 1), (CHR ''2'', 2), (CHR ''3'', 3), (CHR ''4'', 4)])"
  (is "?L \<longleftrightarrow> ?R")
proof (cases "s = []")
  case True
  then show ?thesis by (simp add: heading_level_def re_heading_def re_h_def)
next
  case ne: False
  show ?thesis
  proof (cases "map_of HEADING_STYLE_LEVELS (str_lower s)")
    case (Some l0)
    from table_in_regex[OF Some] obtain d0
      where d0: "(case re_heading s of Some d \<Rightarrow> Some d | None \<Rightarrow> re_h s) = Some d0"
        and l0: "(d0, l0) \<in> set [(CHR ''1'', 1), (CHR ''2'', 2), (CHR ''3'', 3), (CHR ''4'', 4)]"
      by blast
    from ne Some have L: "?L \<longleftrightarrow> l = l0" by (auto simp: heading_level_def)
    have "?R \<longleftrightarrow> (d0, l) \<in> set [(CHR ''1'', 1), (CHR ''2'', 2), (CHR ''3'', 3), (CHR ''4'', 4)]"
      unfolding d0 by simp
    also have "\<dots> \<longleftrightarrow> l = l0" using l0 level_functional by blast
    finally show ?thesis using L by simp
  next
    case None
    with ne have L: "?L \<longleftrightarrow>
      (\<exists>d. (case re_heading s of Some d \<Rightarrow> Some d | None \<Rightarrow> re_h s) = Some d \<and> l = min (digit_value d) 4)"
      by (auto simp: heading_level_def split: option.splits)
    show ?thesis unfolding L using regex_group_digit level_of_digit by blast
  qed
qed

lemma heading_level_forms:
  "heading_level (Some s) = Some l \<longleftrightarrow>
     (\<exists>h w d a n. s = h @ w @ [d] @ a @ n
        \<and> (list_all2 (\<lambda>c v. c \<in> set v) h [''hH'', ''eE'', ''aA'', ''dD'', ''iI'', ''nN'', ''gG'']
             \<and> (\<forall>c \<in> set w. isspace c)
           \<or> list_all2 (\<lambda>c v. c \<in> set v) h [''hH''] \<and> w = [])
        \<and> (d, l) \<in> set [(CHR ''1'', 1), (CHR ''2'', 2), (CHR ''3'', 3), (CHR ''4'', 4)]
        \<and> a \<in> set [[], ''a'', ''A''] \<and> n \<in> set [[], [CHR 0x0A]])"
  (is "?L \<longleftrightarrow> ?R")
proof -
  have dl: "\<And>d. (d, l) \<in> set [(CHR ''1'', 1), (CHR ''2'', 2), (CHR ''3'', 3), (CHR ''4'', 4)] \<Longrightarrow> d \<in> set ''1234''"
    by auto
  have g: "\<And>d. (case re_heading s of Some d \<Rightarrow> Some d | None \<Rightarrow> re_h s) = Some d
       \<longleftrightarrow> re_heading s = Some d \<or> re_h s = Some d"
    using re_h_excludes_heading[of s] by (auto split: option.splits)
  show ?thesis
  proof
    assume ?L
    then obtain d where d: "re_heading s = Some d \<or> re_h s = Some d"
      and l: "(d, l) \<in> set [(CHR ''1'', 1), (CHR ''2'', 2), (CHR ''3'', 3), (CHR ''4'', 4)]"
      unfolding heading_level_regex g by blast
    from d show ?R
    proof
      assume "re_heading s = Some d"
      then obtain h w a n where "s = h @ w @ d # a @ n"
        "list_all2 (\<lambda>c v. c \<in> set v) h [''hH'', ''eE'', ''aA'', ''dD'', ''iI'', ''nN'', ''gG'']"
        "\<forall>c \<in> set w. isspace c" "a \<in> set [[], ''a'', ''A'']" "n \<in> set [[], [CHR 0x0A]]"
        unfolding re_heading_iff by blast
      with l show ?R by (intro exI[of _ h] exI[of _ w] exI[of _ d] exI[of _ a] exI[of _ n]) simp
    next
      assume "re_h s = Some d"
      then obtain h a n where "s = h @ d # a @ n" "list_all2 (\<lambda>c v. c \<in> set v) h [''hH'']"
        "a \<in> set [[], ''a'', ''A'']" "n \<in> set [[], [CHR 0x0A]]"
        unfolding re_h_iff by blast
      with l show ?R by (intro exI[of _ h] exI[of _ "[]"] exI[of _ d] exI[of _ a] exI[of _ n]) simp
    qed
  next
    assume ?R
    then obtain h w d a n where s: "s = h @ w @ [d] @ a @ n"
      and f: "list_all2 (\<lambda>c v. c \<in> set v) h [''hH'', ''eE'', ''aA'', ''dD'', ''iI'', ''nN'', ''gG'']
             \<and> (\<forall>c \<in> set w. isspace c)
           \<or> list_all2 (\<lambda>c v. c \<in> set v) h [''hH''] \<and> w = []"
      and l: "(d, l) \<in> set [(CHR ''1'', 1), (CHR ''2'', 2), (CHR ''3'', 3), (CHR ''4'', 4)]"
      and an: "a \<in> set [[], ''a'', ''A'']" "n \<in> set [[], [CHR 0x0A]]"
      by blast
    from f have "re_heading s = Some d \<or> re_h s = Some d"
    proof
      assume "list_all2 (\<lambda>c v. c \<in> set v) h [''hH'', ''eE'', ''aA'', ''dD'', ''iI'', ''nN'', ''gG'']
             \<and> (\<forall>c \<in> set w. isspace c)"
      with s dl[OF l] an have "re_heading s = Some d" unfolding re_heading_iff
        by (intro exI[of _ h] exI[of _ w] exI[of _ a] exI[of _ n]) simp
      then show ?thesis by simp
    next
      assume "list_all2 (\<lambda>c v. c \<in> set v) h [''hH''] \<and> w = []"
      with s dl[OF l] an have "re_h s = Some d" unfolding re_h_iff
        by (intro exI[of _ h] exI[of _ a] exI[of _ n]) simp
      then show ?thesis by simp
    qed
    with l show ?L unfolding heading_level_regex g by blast
  qed
qed

section \<open>The section builder\<close>

subsection \<open>The popping loop\<close>

lemma pop_while_take: "\<exists>k. pop_while h stk l = take k stk"
proof (induction h stk l rule: pop_while.induct)
  case (1 h stk l)
  show ?case
  proof (cases "stk \<noteq> [] \<and> level (h ! last stk) \<ge> l")
    case True
    with 1 obtain k where "pop_while h (butlast stk) l = take k (butlast stk)" by blast
    moreover have "pop_while h stk l = pop_while h (butlast stk) l"
      using True by (subst pop_while.simps) auto
    ultimately have "pop_while h stk l = take (min k (length stk - 1)) stk"
      by (simp add: butlast_conv_take min.commute)
    then show ?thesis by blast
  next
    case False
    then have "pop_while h stk l = stk" by (subst pop_while.simps) auto
    then have "pop_while h stk l = take (length stk) stk" by simp
    then show ?thesis by blast
  qed
qed

lemma pop_while_top: "pop_while h stk l = [] \<or> level (h ! last (pop_while h stk l)) < l"
proof (induction h stk l rule: pop_while.induct)
  case (1 h stk l)
  show ?case
  proof (cases "stk \<noteq> [] \<and> level (h ! last stk) \<ge> l")
    case True
    then have "pop_while h stk l = pop_while h (butlast stk) l"
      by (subst pop_while.simps) auto
    with 1 True show ?thesis by simp
  next
    case False
    then have "pop_while h stk l = stk" by (subst pop_while.simps) auto
    with False show ?thesis by auto
  qed
qed

lemma pop_while_keeps_bottom:
  "stk \<noteq> [] \<Longrightarrow> level (h ! hd stk) < l \<Longrightarrow> pop_while h stk l \<noteq> [] \<and> hd (pop_while h stk l) = hd stk"
proof (induction h stk l rule: pop_while.induct)
  case (1 h stk l)
  show ?case
  proof (cases "level (h ! last stk) \<ge> l")
    case True
    with 1(2,3) have ne: "butlast stk \<noteq> []"
      by (cases stk) (auto split: if_splits)
    then have hb: "hd (butlast stk) = hd stk" by (cases stk) auto
    have "pop_while h stk l = pop_while h (butlast stk) l"
      using True 1(2) by (subst pop_while.simps) auto
    with 1 True ne hb show ?thesis by simp
  next
    case False
    then have "pop_while h stk l = stk" by (subst pop_while.simps) auto
    with 1(2) show ?thesis by simp
  qed
qed


lemma sorted_wrt_take_map: "sorted_wrt R (map f xs) \<Longrightarrow> sorted_wrt R (map f (take k xs))"
  by (metis sorted_wrt_take take_map)

lemma sorted_last_max:
  "sorted_wrt (<) (map f xs) \<Longrightarrow> x \<in> set xs \<Longrightarrow> (f x :: int) \<le> f (last xs)"
proof (induction xs)
  case Nil
  then show ?case by simp
next
  case (Cons y ys)
  then show ?case by (cases ys) (auto simp: less_imp_le)
qed

lemma pop_while_set: "set (pop_while h stk l) \<subseteq> set stk"
proof -
  obtain k where "pop_while h stk l = take k stk" using pop_while_take by blast
  then show ?thesis by (simp add: set_take_subset)
qed

lemma pop_while_sorted:
  "sorted_wrt (<) (map f stk) \<Longrightarrow> sorted_wrt (<) (map f (pop_while h stk l))"
proof -
  assume s: "sorted_wrt (<) (map f stk)"
  obtain k where "pop_while h stk l = take k stk" using pop_while_take by blast
  with sorted_wrt_take_map[OF s, of k] show ?thesis by simp
qed

lemma children_deeperD:
  "children_deeper h \<Longrightarrow> b < length h \<Longrightarrow> c \<in> set (children (h ! b)) \<Longrightarrow>
   b < c \<and> c < length h \<and> level (h ! b) < level (h ! c)"
  unfolding children_deeper_def by blast

lemma step_heading:
  assumes "heading_level style = Some l"
  shows "step st (text, style) =
     Inr \<lparr>heap = (heap st @ [new_section text l])
                  [(if pop_while (heap st) (stack st) l \<noteq> [] then last (pop_while (heap st) (stack st) l) else root) :=
                     ((heap st @ [new_section text l]) ! (if pop_while (heap st) (stack st) l \<noteq> [] then last (pop_while (heap st) (stack st) l) else root))
                       \<lparr>children := children ((heap st @ [new_section text l]) ! (if pop_while (heap st) (stack st) l \<noteq> [] then last (pop_while (heap st) (stack st) l) else root)) @ [length (heap st)]\<rparr>],
           stack = pop_while (heap st) (stack st) l @ [length (heap st)]\<rparr>"
proof -
  from assms have "truthy (heading_level style)" using truthy_heading by blast
  with assms show ?thesis by (simp add: step_def Let_def)
qed

lemma step_heading_wf:
  assumes wf: "wf_state st" and hl: "heading_level style = Some l"
  shows "\<exists>st'. step st (text, style) = Inr st' \<and> wf_state st'
      \<and> stack st' = pop_while (heap st) (stack st) l @ [length (heap st)]
      \<and> pop_while (heap st) (stack st) l \<noteq> []
      \<and> length (heap st') = Suc (length (heap st))
      \<and> heap st' ! length (heap st) = new_section text l
      \<and> length (heap st) \<in> set (children (heap st' ! last (pop_while (heap st) (stack st) l)))"
proof -
  define h where "h = heap st"
  define stk where "stk = pop_while h (stack st) l"
  define a where "a = length h"
  define p where "p = last stk"
  define h1 where "h1 = h @ [new_section text l]"
  define h2 where "h2 = h1[p := (h1 ! p)\<lparr>children := children (h1 ! p) @ [a]\<rparr>]"
  define st' where "st' = \<lparr>heap = h2, stack = stk @ [a]\<rparr>"
  from hl have l1: "1 \<le> l" using heading_level_range by blast
  from wf have ne: "stack st \<noteq> []" and hd0: "hd (stack st) = root" and lv0: "level (h ! root) = 0"
    and hne: "h \<noteq> []"
    and inr: "\<forall>a \<in> set (stack st). a < length h"
    and srt: "sorted_wrt (<) (map (\<lambda>a. level (h ! a)) (stack st))"
    and cd: "children_deeper h"
    by (auto simp: wf_state_def stack_levels_def h_def)
  from ne hd0 lv0 l1 have pne: "stk \<noteq> []" and phd: "hd stk = root"
    using pop_while_keeps_bottom[of "stack st" h l] by (auto simp: stk_def)
  from pne have pin: "p \<in> set (stack st)"
    using pop_while_set[of h "stack st" l] by (auto simp: stk_def p_def)
  with inr have plt: "p < a" by (simp add: a_def)
  from pne have ptop: "level (h ! p) < l"
    using pop_while_top[of h "stack st" l] by (auto simp: stk_def p_def)
  have stp: "step st (text, style) = Inr st'"
    using step_heading[OF hl, of st "text"] pne
    by (simp add: st'_def h2_def h1_def p_def a_def stk_def h_def)
  have len1: "length h1 = Suc a" by (simp add: h1_def a_def)
  have len: "length h2 = Suc a" by (simp add: h2_def len1)
  have h1_old: "\<And>b. b < a \<Longrightarrow> h1 ! b = h ! b" by (simp add: h1_def a_def nth_append)
  have h1_new: "h1 ! a = new_section text l" by (simp add: h1_def a_def)
  have h2_p: "h2 ! p = (h ! p)\<lparr>children := children (h ! p) @ [a]\<rparr>"
    using plt by (simp add: h2_def len1 h1_old)
  have h2_other: "\<And>b. b \<noteq> p \<Longrightarrow> h2 ! b = h1 ! b" by (simp add: h2_def)
  have new: "h2 ! a = new_section text l"
    using plt h2_other[of a] h1_new by simp
  have lev_old: "\<And>b. b < a \<Longrightarrow> level (h2 ! b) = level (h ! b)"
  proof -
    fix b assume "b < a"
    then show "level (h2 ! b) = level (h ! b)"
      using h2_p h2_other[of b] h1_old[of b] by (cases "b = p") simp_all
  qed
  have lev_new: "level (h2 ! a) = l" by (simp add: new new_section_def)
  have ch_p: "children (h2 ! p) = children (h ! p) @ [a]" by (simp add: h2_p)
  have ch_old: "\<And>b. b < a \<Longrightarrow> b \<noteq> p \<Longrightarrow> children (h2 ! b) = children (h ! b)"
    using h2_other h1_old by simp
  have ch_new: "children (h2 ! a) = []" by (simp add: new new_section_def)
  have stk_in: "\<forall>b \<in> set stk. b < a"
    using inr pop_while_set[of h "stack st" l] by (auto simp: stk_def a_def)
  have srt_p: "sorted_wrt (<) (map (\<lambda>a. level (h ! a)) stk)"
    unfolding stk_def using srt by (rule pop_while_sorted)
  have below: "\<forall>b \<in> set stk. level (h ! b) < l"
  proof
    fix b assume "b \<in> set stk"
    from sorted_last_max[OF srt_p this] ptop show "level (h ! b) < l" by (simp add: p_def)
  qed
  have map_eq: "map (\<lambda>b. level (h2 ! b)) stk = map (\<lambda>b. level (h ! b)) stk"
    using stk_in lev_old by (intro map_cong) auto
  have "stack_levels st' = map (\<lambda>b. level (h2 ! b)) stk @ [level (h2 ! a)]"
    by (simp add: stack_levels_def st'_def)
  then have sl: "stack_levels st' = map (\<lambda>b. level (h ! b)) stk @ [l]"
    by (simp only: map_eq lev_new)
  have srt': "sorted_wrt (<) (stack_levels st')"
    unfolding sl using srt_p below by (simp add: sorted_wrt_append)
  have cd': "children_deeper h2"
    unfolding children_deeper_def
  proof (intro allI impI ballI)
    fix b c assume b: "b < length h2" and c: "c \<in> set (children (h2 ! b))"
    show "b < c \<and> c < length h2 \<and> level (h2 ! b) < level (h2 ! c)"
    proof (cases "b = a")
      case True
      with c ch_new show ?thesis by simp
    next
      case False
      with b len have blt: "b < a" by simp
      show ?thesis
      proof (cases "c = a")
        case True
        have "b = p"
        proof (rule ccontr)
          assume np: "b \<noteq> p"
          from c ch_old[OF blt np] have "c \<in> set (children (h ! b))" by simp
          with children_deeperD[OF cd, of b c] blt have "c < a" by (simp add: a_def)
          with True show False by simp
        qed
        with True blt lev_new lev_old[of p] ptop len show ?thesis by simp
      next
        case False
        have "c \<in> set (children (h ! b))"
        proof (cases "b = p")
          case True
          with c ch_p False show ?thesis by simp
        next
          case np: False
          from c ch_old[OF blt np] show ?thesis by simp
        qed
        with children_deeperD[OF cd, of b c] blt
        have "b < c \<and> c < a \<and> level (h ! b) < level (h ! c)"
          by (simp add: a_def)
        with blt lev_old[of b] lev_old[of c] len show ?thesis by simp
      qed
    qed
  qed
  have hd': "hd (stk @ [a]) = root" using pne phd by simp
  from hne have "root < a" by (simp add: root_def a_def)
  then have lv0': "level (h2 ! root) = 0" using lv0 lev_old[of root] by simp
  have stk_in': "\<forall>b \<in> set (stk @ [a]). b < length h2" using stk_in len by auto
  from len have h2ne: "h2 \<noteq> []" by auto
  have wf': "wf_state st'"
    unfolding wf_state_def using hd' lv0' stk_in' srt' cd' h2ne
    by (simp add: st'_def)
  have mem: "a \<in> set (children (h2 ! p))" using ch_p by simp
  have "step st (text, style) = Inr st' \<and> wf_state st'
      \<and> stack st' = stk @ [a] \<and> stk \<noteq> [] \<and> length (heap st') = Suc a
      \<and> heap st' ! a = new_section text l \<and> a \<in> set (children (heap st' ! p))"
    using stp wf' pne len new mem by (simp add: st'_def)
  then show ?thesis unfolding stk_def a_def p_def h_def by (rule exI)
qed

lemma step_text_wf:
  assumes wf: "wf_state st" and hl: "heading_level style = None"
  shows "\<exists>st'. step st (text, style) = Inr st' \<and> wf_state st' \<and> stack st' = stack st
      \<and> map level (heap st') = map level (heap st)
      \<and> map children (heap st') = map children (heap st)
      \<and> map title (heap st') = map title (heap st)
      \<and> (should_skip_paragraph text \<longrightarrow> st' = st)"
proof (cases "should_skip_paragraph text")
  case True
  with hl wf show ?thesis by (simp add: step_def truthy_def)
next
  case False
  let ?t = "last (stack st)"
  let ?h' = "(heap st)[?t := (heap st ! ?t)\<lparr>content := content (heap st ! ?t) @ [text]\<rparr>]"
  from wf have ne: "stack st \<noteq> []" by (simp add: wf_state_def)
  with wf have tlt: "?t < length (heap st)" by (simp add: wf_state_def)
  from ne hl False have stp: "step st (text, style) = Inr (st\<lparr>heap := ?h'\<rparr>)"
    by (simp add: step_def truthy_def Let_def)
  have lev: "map level ?h' = map level (heap st)"
    using tlt by (intro nth_equalityI) (auto simp: nth_list_update)
  have ch: "map children ?h' = map children (heap st)"
    using tlt by (intro nth_equalityI) (auto simp: nth_list_update)
  have ti: "map title ?h' = map title (heap st)"
    using tlt by (intro nth_equalityI) (auto simp: nth_list_update)
  have nth_lev: "\<And>a. a < length (heap st) \<Longrightarrow> level (?h' ! a) = level (heap st ! a)"
    using tlt by (simp add: nth_list_update)
  have nth_ch: "\<And>a. a < length (heap st) \<Longrightarrow> children (?h' ! a) = children (heap st ! a)"
    using tlt by (simp add: nth_list_update)
  from wf have inr: "\<forall>a \<in> set (stack st). a < length (heap st)" by (simp add: wf_state_def)
  then have "map (\<lambda>a. level (?h' ! a)) (stack st) = map (\<lambda>a. level (heap st ! a)) (stack st)"
    using nth_lev by (intro map_cong) auto
  then have sl: "stack_levels (st\<lparr>heap := ?h'\<rparr>) = stack_levels st"
    by (simp add: stack_levels_def)
  have cd: "children_deeper ?h'"
    unfolding children_deeper_def
  proof (intro allI impI ballI)
    fix b c assume b: "b < length ?h'" and c: "c \<in> set (children (?h' ! b))"
    then have "b < length (heap st)" "c \<in> set (children (heap st ! b))"
      using nth_ch[of b] by simp_all
    from children_deeperD[OF _ this] wf
    have *: "b < c \<and> c < length (heap st) \<and> level (heap st ! b) < level (heap st ! c)"
      by (simp add: wf_state_def)
    with nth_lev[of b] nth_lev[of c] show "b < c \<and> c < length ?h' \<and> level (?h' ! b) < level (?h' ! c)"
      by simp
  qed
  from wf have "heap st \<noteq> []" by (simp add: wf_state_def)
  then have "level (?h' ! root) = level (heap st ! root)"
    using nth_lev[of root] by (simp add: root_def)
  with wf sl cd have "wf_state (st\<lparr>heap := ?h'\<rparr>)"
    by (simp add: wf_state_def)
  with stp lev ch ti False show ?thesis by simp
qed

lemma wf_init: "wf_state init_state"
  by (simp add: wf_state_def init_state_def root_def stack_levels_def children_deeper_def)

lemma step_wf: "wf_state st \<Longrightarrow> \<exists>st'. step st p = Inr st' \<and> wf_state st'"
proof (cases "heading_level (snd p)")
  case None
  assume "wf_state st"
  from step_text_wf[OF this None, of "fst p"] show ?thesis by auto
next
  case (Some l)
  assume "wf_state st"
  from step_heading_wf[OF this Some, of "fst p"] show ?thesis by auto
qed

lemma run_wf: "wf_state st \<Longrightarrow> \<exists>st'. run st ps = Inr st' \<and> wf_state st'"
proof (induction ps arbitrary: st)
  case Nil
  then show ?case by simp
next
  case (Cons p ps)
  from step_wf[OF Cons.prems, of p] obtain st1 where "step st p = Inr st1" "wf_state st1" by blast
  with Cons.IH[of st1] show ?case by simp
qed

lemma those_map_Some:
  "(\<And>x. x \<in> set xs \<Longrightarrow> \<exists>y. f x = Some y) \<Longrightarrow> \<exists>ys. those (map f xs) = Some ys"
proof (induction xs)
  case Nil
  then show ?case by simp
next
  case (Cons x xs)
  then obtain y where y: "f x = Some y" by auto
  from Cons obtain ys where "those (map f xs) = Some ys" by auto
  with y show ?case by simp
qed

lemma those_map_elem:
  "those (map f xs) = Some ys \<Longrightarrow> y \<in> set ys \<Longrightarrow> \<exists>x \<in> set xs. f x = Some y"
proof (induction xs arbitrary: ys)
  case Nil
  then show ?case by simp
next
  case (Cons x xs)
  then show ?case by (auto split: option.splits)
qed

lemma read_section_total:
  "children_deeper h \<Longrightarrow> a < length h \<Longrightarrow> length h - a \<le> n \<Longrightarrow> \<exists>t. read_section n h a = Some t"
proof (induction n arbitrary: a)
  case 0
  then show ?case by simp
next
  case (Suc n)
  have "\<And>c. c \<in> set (children (h ! a)) \<Longrightarrow> \<exists>t. read_section n h c = Some t"
  proof -
    fix c assume "c \<in> set (children (h ! a))"
    with children_deeperD[OF Suc.prems(1,2)] have "a < c" "c < length h" by auto
    with Suc.prems(3) have "length h - c \<le> n" by simp
    with Suc.IH[OF Suc.prems(1) \<open>c < length h\<close>] show "\<exists>t. read_section n h c = Some t" by simp
  qed
  from those_map_Some[of "children (h ! a)" "read_section n h", OF this]
  obtain cs where "those (map (read_section n h) (children (h ! a))) = Some cs" by blast
  with Suc.prems(2) show ?case by simp
qed

lemma read_section_level:
  "read_section n h a = Some t \<Longrightarrow> level_of t = level (h ! a) \<and> title_of t = title (h ! a)
     \<and> content_of t = content (h ! a)"
  by (cases n) (auto split: if_splits option.splits)

lemma read_section_deeper:
  "children_deeper h \<Longrightarrow> read_section n h a = Some t \<Longrightarrow> deeper_children t"
proof (induction n arbitrary: a t)
  case 0
  then show ?case by simp
next
  case (Suc n)
  from Suc.prems(2) have alt: "a < length h" by (simp split: if_splits)
  with Suc.prems(2) obtain cs where cs: "those (map (read_section n h) (children (h ! a))) = Some cs"
    and t: "t = Section (title (h ! a)) (level (h ! a)) (content (h ! a)) cs"
    by (auto split: option.splits)
  have "\<forall>ch \<in> set cs. level (h ! a) < level_of ch \<and> deeper_children ch"
  proof
    fix ch assume "ch \<in> set cs"
    from those_map_elem[OF cs this] obtain c where c: "c \<in> set (children (h ! a))"
      and r: "read_section n h c = Some ch" by blast
    from children_deeperD[OF Suc.prems(1) alt c] have "level (h ! a) < level (h ! c)" by simp
    moreover from read_section_level[OF r] have "level_of ch = level (h ! c)" by simp
    moreover from Suc.IH[OF Suc.prems(1) r] have "deeper_children ch" .
    ultimately show "level (h ! a) < level_of ch \<and> deeper_children ch" by simp
  qed
  with t show ?case by simp
qed

lemma run_append:
  "run st (xs @ ys) = (case run st xs of Inl e \<Rightarrow> Inl e | Inr st' \<Rightarrow> run st' ys)"
  by (induction xs arbitrary: st) (auto split: sum.splits)

lemma step_skip:
  "heading_level style = None \<Longrightarrow> should_skip_paragraph text \<Longrightarrow> step st (text, style) = Inr st"
  by (simp add: step_def truthy_def)

lemma pop_while_levels:
  "\<forall>a \<in> set S. a < length h \<Longrightarrow> pop_while h S l = pop_while (level_store (map level h)) S l"
proof (induction h S l rule: pop_while.induct)
  case (1 h stk l)
  let ?h' = "level_store (map level h)"
  show ?case
  proof (cases "stk \<noteq> [] \<and> level (h ! last stk) \<ge> l")
    case True
    then have "last stk < length h" using 1(2) by simp
    then have lv: "level (?h' ! last stk) = level (h ! last stk)" by (simp add: level_store_def)
    from 1(2) have "\<forall>a \<in> set (butlast stk). a < length h" by (auto dest: in_set_butlastD)
    with 1(1) True have ih: "pop_while h (butlast stk) l = pop_while ?h' (butlast stk) l" by blast
    have "pop_while h stk l = pop_while h (butlast stk) l"
      using True by (subst pop_while.simps) auto
    moreover have "pop_while ?h' stk l = pop_while ?h' (butlast stk) l"
      using True lv by (subst pop_while.simps) auto
    ultimately show ?thesis using ih by simp
  next
    case False
    have a: "pop_while h stk l = stk" using False by (subst pop_while.simps) auto
    have "stk = [] \<or> level (?h' ! last stk) < l"
    proof (cases "stk = []")
      case True then show ?thesis by simp
    next
      case ne: False
      then have "last stk < length h" using 1(2) by simp
      then have "level (?h' ! last stk) = level (h ! last stk)" by (simp add: level_store_def)
      with False ne show ?thesis by auto
    qed
    then have "pop_while ?h' stk l = stk" by (subst pop_while.simps) auto
    with a show ?thesis by simp
  qed
qed

lemma shape_text:
  assumes "shape st S L C T" and "heading_level style = None"
  shows "\<exists>st'. step st (text, style) = Inr st' \<and> shape st' S L C T"
proof -
  from assms(1) have wf: "wf_state st" by (simp add: shape_def)
  from step_text_wf[OF wf assms(2), of "text"] obtain st' where
    "step st (text, style) = Inr st'" "wf_state st'" "stack st' = stack st"
    "map level (heap st') = map level (heap st)" "map children (heap st') = map children (heap st)"
    "map title (heap st') = map title (heap st)" by blast
  with assms(1) show ?thesis by (intro exI[of _ st']) (simp add: shape_def)
qed

lemma shape_texts:
  "shape st S L C T \<Longrightarrow> headings ns = [] \<Longrightarrow> \<exists>st'. run st ns = Inr st' \<and> shape st' S L C T"
proof (induction ns arbitrary: st)
  case Nil
  then show ?case by simp
next
  case (Cons p ns)
  from Cons.prems(2) have nt: "\<not> truthy (heading_level (snd p))" and rest: "headings ns = []"
    by (auto simp: headings_def split: if_splits)
  from nt have "heading_level (snd p) = None" using truthy_heading[of "snd p"] by auto
  from shape_text[OF Cons.prems(1) this, of "fst p"] obtain st1 where
    "step st p = Inr st1" "shape st1 S L C T" by auto
  with Cons.IH[OF _ rest, of st1] show ?case by simp
qed

lemma shape_heading:
  assumes sh: "shape st S L C T" and hl: "heading_level style = Some l"
  shows "\<exists>st'. step st (text, style) = Inr st' \<and>
     shape st' (pop_while (level_store L) S l @ [length L]) (L @ [l])
       (C[last (pop_while (level_store L) S l) := C ! last (pop_while (level_store L) S l) @ [length L]] @ [[]])
       (T @ [heading_title (text, l)])"
proof -
  define h where "h = heap st"
  define stk where "stk = pop_while h (stack st) l"
  define p where "p = last stk"
  define a where "a = length h"
  define H where "H = h @ [new_section text l]"
  from sh have wf: "wf_state st" and S: "stack st = S" and L: "map level h = L"
    and C: "map children h = C" and T: "map title h = T"
    by (simp_all add: shape_def h_def)
  from wf have inr: "\<forall>a \<in> set (stack st). a < length h" by (simp add: wf_state_def h_def)
  from pop_while_levels[OF inr, of l] have stk_eq: "stk = pop_while (level_store L) S l"
    by (simp add: stk_def L S)
  from step_heading_wf[OF wf hl, of "text"] obtain st' where
    stp: "step st (text, style) = Inr st'" and wf': "wf_state st'"
    and stk': "stack st' = stk @ [a]" and pne: "stk \<noteq> []"
    by (auto simp: stk_def h_def a_def)
  from pne have "p \<in> set (stack st)" using pop_while_set[of h "stack st" l] by (auto simp: p_def stk_def)
  with inr have plt: "p < a" by (simp add: a_def)
  from step_heading[OF hl, of st "text"] stp pne
  have hp: "heap st' = H[p := (H ! p)\<lparr>children := children (H ! p) @ [a]\<rparr>]"
    by (simp add: H_def p_def a_def stk_def h_def)
  have lenH: "length H = Suc a" by (simp add: H_def a_def)
  have Hp: "H ! p = h ! p" using plt by (simp add: H_def a_def nth_append)
  have lev: "map level (heap st') = L @ [l]"
  proof -
    have "map level (heap st') = map level H"
      unfolding hp using plt lenH by (intro nth_equalityI) (auto simp: nth_list_update)
    then show ?thesis by (simp add: H_def L new_section_def)
  qed
  have ti: "map title (heap st') = T @ [heading_title (text, l)]"
  proof -
    have "map title (heap st') = map title H"
      unfolding hp using plt lenH by (intro nth_equalityI) (auto simp: nth_list_update)
    then show ?thesis by (simp add: H_def T heading_title_def)
  qed
  have ch: "map children (heap st') = C[p := C ! p @ [a]] @ [[]]"
  proof -
    have "map children (heap st') = (map children H)[p := children (H ! p) @ [a]]"
      unfolding hp by (simp add: map_update)
    also have "map children H = C @ [[]]" by (simp add: H_def C new_section_def)
    also have "children (H ! p) = C ! p" using plt Hp C by (auto simp: a_def)
    also have "(C @ [[]])[p := C ! p @ [a]] = C[p := C ! p @ [a]] @ [[]]"
      using plt C by (auto simp: a_def list_update_append1)
    finally show ?thesis .
  qed
  have aL: "a = length L" using L by (auto simp: a_def)
  from wf' stk' lev ch ti have "shape st' (stk @ [a]) (L @ [l]) (C[p := C ! p @ [a]] @ [[]]) (T @ [heading_title (text, l)])"
    by (simp add: shape_def)
  with stp show ?thesis unfolding p_def stk_eq aL by blast
qed

lemma headings_Cons:
  "headings ps = x # xs \<Longrightarrow>
   \<exists>ns p ps'. ps = ns @ p # ps' \<and> headings ns = [] \<and> heading_level (snd p) = Some (snd x)
      \<and> fst p = fst x \<and> headings ps' = xs"
proof (induction ps)
  case Nil
  then show ?case by (simp add: headings_def)
next
  case (Cons q ps)
  show ?case
  proof (cases "truthy (heading_level (snd q))")
    case True
    with Cons.prems have x: "x = (fst q, the (heading_level (snd q)))" and r: "headings ps = xs"
      by (simp_all add: headings_def)
    from True obtain l where "heading_level (snd q) = Some l" using truthy_heading by blast
    with x have "heading_level (snd q) = Some (snd x)" "fst q = fst x" by simp_all
    with r have "q # ps = [] @ q # ps \<and> headings [] = [] \<and> heading_level (snd q) = Some (snd x)
      \<and> fst q = fst x \<and> headings ps = xs" by (simp add: headings_def)
    then show ?thesis by blast
  next
    case False
    with Cons.prems have "headings ps = x # xs" by (simp add: headings_def)
    from Cons.IH[OF this] obtain ns p ps' where
      d: "ps = ns @ p # ps'" "headings ns = []" "heading_level (snd p) = Some (snd x)"
      "fst p = fst x" "headings ps' = xs" by blast
    from False d(2) have "headings (q # ns) = []" by (simp add: headings_def)
    with d have "q # ps = (q # ns) @ p # ps' \<and> headings (q # ns) = [] \<and> heading_level (snd p) = Some (snd x)
      \<and> fst p = fst x \<and> headings ps' = xs" by simp
    then show ?thesis by blast
  qed
qed

lemma shape_run_heading:
  assumes sh: "shape st S L C T" and hs: "headings ps = x # xs"
    and pop: "pop_while (level_store L) S (snd x) = S'" and n: "length L = n"
  shows "\<exists>st' ps'. run st ps = run st' ps' \<and> headings ps' = xs \<and>
     shape st' (S' @ [n]) (L @ [snd x]) (C[last S' := C ! last S' @ [n]] @ [[]]) (T @ [heading_title x])"
proof -
  from headings_Cons[OF hs] obtain ns p ps' where
    d: "ps = ns @ p # ps'" "headings ns = []" "heading_level (snd p) = Some (snd x)"
    "fst p = fst x" "headings ps' = xs" by blast
  from shape_texts[OF sh d(2)] obtain st1 where r1: "run st ns = Inr st1" and s1: "shape st1 S L C T"
    by blast
  from shape_heading[OF s1 d(3), of "fst p"] obtain st2 where
    r2: "step st1 p = Inr st2"
    and s2: "shape st2 (pop_while (level_store L) S (snd x) @ [length L]) (L @ [snd x])
       (C[last (pop_while (level_store L) S (snd x)) := C ! last (pop_while (level_store L) S (snd x)) @ [length L]] @ [[]])
       (T @ [heading_title (fst p, snd x)])" by auto
  from d(4) have "(fst p, snd x) = x" by (cases x) simp
  with s2 have s2': "shape st2 (pop_while (level_store L) S (snd x) @ [length L]) (L @ [snd x])
       (C[last (pop_while (level_store L) S (snd x)) := C ! last (pop_while (level_store L) S (snd x)) @ [length L]] @ [[]])
       (T @ [heading_title x])" by simp
  from r1 r2 d(1) have "run st ps = run st2 ps'" by (simp add: run_append)
  with d(5) s2' show ?thesis unfolding pop[symmetric] n[symmetric] by blast
qed

lemma read_leaf:
  "a < length h \<Longrightarrow> children (h ! a) = [] \<Longrightarrow>
   read_section (Suc n) h a = Some (Section (title (h ! a)) (level (h ! a)) (content (h ! a)) [])"
  by simp

section \<open>Substitution and the run of the cover generator\<close>

lemma scoped_replace_Inr:
  "scoped_replace x p r = Inr (u, n) \<longleftrightarrow>
     finditer p x \<noteq> [] \<and> u = re_sub p (html_escape r) x \<and> n = length (finditer p x)"
  by (auto simp: scoped_replace_def Let_def)

lemma scoped_replace_Inl:
  "scoped_replace x p r = Inl e \<longleftrightarrow> finditer p x = [] \<and> e = PlaceholderNotFound p"
  by (auto simp: scoped_replace_def Let_def)











subsection \<open>Matches of a placeholder's pattern before and after a substitution\<close>



























section \<open>Claims\<close>

text \<open>
  C1. For every paragraph sequence the loop of \<open>_build_sections\<close> ends without an
  exception in a state whose stack is not empty, has the root at the bottom and has
  strictly increasing levels from bottom to top. Every recognised heading level is at
  least 1, so popping for the next heading never removes the root, and the popped stack
  is again strictly increasing. The returned tree has the level-0 root, and along every
  path a child's level is strictly greater than its parent's. Since the statement holds
  for every sequence, it holds after every prefix of the pass.
\<close>

theorem build_sections_levels_increase:
  "\<exists>st t. run init_state ps = Inr st
     \<and> stack st \<noteq> [] \<and> hd (stack st) = root \<and> sorted_wrt (<) (stack_levels st)
     \<and> (\<forall>style l. heading_level style = Some l \<longrightarrow>
           1 \<le> l \<and> pop_while (heap st) (stack st) l \<noteq> []
           \<and> hd (pop_while (heap st) (stack st) l) = root
           \<and> sorted_wrt (<) (map (\<lambda>a. level (heap st ! a)) (pop_while (heap st) (stack st) l)))
     \<and> build_sections ps = Inr (Some t) \<and> level_of t = 0 \<and> deeper_children t"
proof -
  from run_wf[OF wf_init, of ps] obtain st where st: "run init_state ps = Inr st" and wf: "wf_state st"
    by blast
  from wf have ne: "stack st \<noteq> []" and hd0: "hd (stack st) = root" and lv0: "level (heap st ! root) = 0"
    and srt: "sorted_wrt (<) (stack_levels st)" and cd: "children_deeper (heap st)"
    and hne: "heap st \<noteq> []"
    unfolding wf_state_def by blast+
  have pops: "\<forall>style l. heading_level style = Some l \<longrightarrow>
           1 \<le> l \<and> pop_while (heap st) (stack st) l \<noteq> []
           \<and> hd (pop_while (heap st) (stack st) l) = root
           \<and> sorted_wrt (<) (map (\<lambda>a. level (heap st ! a)) (pop_while (heap st) (stack st) l))"
  proof (intro allI impI)
    fix style l assume "heading_level style = Some l"
    then have l1: "1 \<le> l" using heading_level_range by blast
    with ne hd0 lv0 have "pop_while (heap st) (stack st) l \<noteq> [] \<and> hd (pop_while (heap st) (stack st) l) = hd (stack st)"
      by (intro pop_while_keeps_bottom) simp_all
    moreover from srt have "sorted_wrt (<) (map (\<lambda>a. level (heap st ! a)) (pop_while (heap st) (stack st) l))"
      unfolding stack_levels_def by (rule pop_while_sorted)
    ultimately show "1 \<le> l \<and> pop_while (heap st) (stack st) l \<noteq> []
           \<and> hd (pop_while (heap st) (stack st) l) = root
           \<and> sorted_wrt (<) (map (\<lambda>a. level (heap st ! a)) (pop_while (heap st) (stack st) l))"
      using l1 hd0 by simp
  qed
  from hne have rlt: "root < length (heap st)" by (simp add: root_def)
  from read_section_total[OF cd rlt, of "length (heap st)"] obtain t
    where t: "read_section (length (heap st)) (heap st) root = Some t" by auto
  from read_section_level[OF t] lv0 have tl: "level_of t = 0" by simp
  from read_section_deeper[OF cd t] have td: "deeper_children t" .
  from st t have b: "build_sections ps = Inr (Some t)" by (simp add: build_sections_def)
  from st ne hd0 srt pops b tl td show ?thesis by blast
qed

theorem build_sections_levels_increase_witness:
  "build_sections [(''A'', Some ''heading1''), (''x'', None), (''B'', Some ''h3''), (''C'', Some ''Heading 2'')]
     = Inr (Some (Section ''root'' 0 [] [Section ''A'' 1 [''x''] [Section ''B'' 3 [] [], Section ''C'' 2 [] []]]))
   \<and> deeper_children (Section ''root'' 0 [] [Section ''A'' 1 [''x''] [Section ''B'' 3 [] [], Section ''C'' 2 [] []]])
   \<and> (\<exists>st. run init_state [(''A'', Some ''heading1''), (''x'', None), (''B'', Some ''h3''), (''C'', Some ''Heading 2'')] = Inr st
         \<and> pop_while (heap st) (stack st) 2 \<noteq> [])"
proof -
  let ?ps = "[(''A'', Some ''heading1''), (''x'', None), (''B'', Some ''h3''), (''C'', Some ''Heading 2'')]"
  have e: "build_sections ?ps
     = Inr (Some (Section ''root'' 0 [] [Section ''A'' 1 [''x''] [Section ''B'' 3 [] [], Section ''C'' 2 [] []]]))"
    by code_simp
  have h: "heading_level (Some ''h2'') = Some 2" by code_simp
  from build_sections_levels_increase[of ?ps] obtain st t where
    st: "run init_state ?ps = Inr st"
    and p: "\<forall>style l. heading_level style = Some l \<longrightarrow>
           1 \<le> l \<and> pop_while (heap st) (stack st) l \<noteq> []
           \<and> hd (pop_while (heap st) (stack st) l) = root
           \<and> sorted_wrt (<) (map (\<lambda>a. level (heap st ! a)) (pop_while (heap st) (stack st) l))"
    and t: "build_sections ?ps = Inr (Some t)" "deeper_children t"
    by blast
  from p h have "pop_while (heap st) (stack st) 2 \<noteq> []" by blast
  with st have 3: "\<exists>st. run init_state ?ps = Inr st \<and> pop_while (heap st) (stack st) 2 \<noteq> []" by blast
  from e t have "deeper_children (Section ''root'' 0 [] [Section ''A'' 1 [''x''] [Section ''B'' 3 [] [], Section ''C'' 2 [] []]])"
    by simp
  with e 3 show ?thesis by blast
qed

text \<open>
  C2. For every paragraph sequence whose heading paragraphs have the levels 1, 2, 1, 3 in
  this order (other paragraphs may stand anywhere between them), the returned root has
  exactly two children, the two level-1 sections in document order; the first has exactly
  one child, the level-2 section, and the second has exactly one child, the level-3
  section; the level-2 and level-3 sections have no children. The titles are those of the
  four heading paragraphs in order.
\<close>

theorem headings_1_2_1_3:
  assumes "map snd (headings ps) = [1, 2, 1, 3]"
  shows "\<exists>c0 c1 c2 c3 c4 t1 t2 t3 t4.
     build_sections ps =
       Inr (Some (Section ''root'' 0 c0
         [Section t1 1 c1 [Section t2 2 c2 []],
          Section t3 1 c3 [Section t4 3 c4 []]]))
     \<and> map heading_title (headings ps) = [t1, t2, t3, t4]"
proof -
  from assms obtain x1 x2 x3 x4 where hs: "headings ps = [x1, x2, x3, x4]"
    and l: "snd x1 = 1" "snd x2 = 2" "snd x3 = 1" "snd x4 = 3"
    by (auto simp: map_eq_Cons_conv)
  have p1: "pop_while (level_store [0]) [0] (snd x1) = [0]" unfolding l by code_simp
  have n1: "length [0::int] = 1" by simp
  have p2: "pop_while (level_store [0, 1]) [0, 1] (snd x2) = [0, 1]" unfolding l by code_simp
  have n2: "length [0::int, 1] = 2" by simp
  have p3: "pop_while (level_store [0, 1, 2]) [0, 1, 2] (snd x3) = [0]" unfolding l by code_simp
  have n3: "length [0::int, 1, 2] = 3" by simp
  have p4: "pop_while (level_store [0, 1, 2, 1]) [0, 3] (snd x4) = [0, 3]" unfolding l by code_simp
  have n4: "length [0::int, 1, 2, 1] = 4" by simp
  have s0: "shape init_state [0] [0] [[]] [''root'']"
    using wf_init by (simp add: shape_def init_state_def root_def)
  from shape_run_heading[OF s0 hs p1 n1] obtain st1 ps1 where
    r1: "run init_state ps = run st1 ps1" and h1: "headings ps1 = [x2, x3, x4]"
    and s1: "shape st1 [0, 1] [0, 1] [[1], []] [''root'', heading_title x1]"
    by (auto simp: l p1)
  from shape_run_heading[OF s1 h1 p2 n2] obtain st2 ps2 where
    r2: "run st1 ps1 = run st2 ps2" and h2: "headings ps2 = [x3, x4]"
    and s2: "shape st2 [0, 1, 2] [0, 1, 2] [[1], [2], []] [''root'', heading_title x1, heading_title x2]"
    by (auto simp: l p2)
  from shape_run_heading[OF s2 h2 p3 n3] obtain st3 ps3 where
    r3: "run st2 ps2 = run st3 ps3" and h3: "headings ps3 = [x4]"
    and s3: "shape st3 [0, 3] [0, 1, 2, 1] [[1, 3], [2], [], []]
       [''root'', heading_title x1, heading_title x2, heading_title x3]"
    by (auto simp: l p3)
  from shape_run_heading[OF s3 h3 p4 n4] obtain st4 ps4 where
    r4: "run st3 ps3 = run st4 ps4" and h4: "headings ps4 = []"
    and s4: "shape st4 [0, 3, 4] [0, 1, 2, 1, 3] [[1, 3], [2], [], [4], []]
       [''root'', heading_title x1, heading_title x2, heading_title x3, heading_title x4]"
    by (auto simp: l p4)
  from shape_texts[OF s4 h4] obtain st where r5: "run st4 ps4 = Inr st"
    and s: "shape st [0, 3, 4] [0, 1, 2, 1, 3] [[1, 3], [2], [], [4], []]
       [''root'', heading_title x1, heading_title x2, heading_title x3, heading_title x4]"
    by blast
  from r1 r2 r3 r4 r5 have run: "run init_state ps = Inr st" by simp
  define h where "h = heap st"
  from s have L: "map level h = [0, 1, 2, 1, 3]" and C: "map children h = [[1, 3], [2], [], [4], []]"
    and T: "map title h = [''root'', heading_title x1, heading_title x2, heading_title x3, heading_title x4]"
    by (simp_all add: shape_def h_def)
  from L have len: "length h = 5" using length_map[of level h] by simp
  have nthL: "\<And>i. i < 5 \<Longrightarrow> level (h ! i) = [0, 1, 2, 1, 3] ! i"
    using L len nth_map[of _ h level] by metis
  have nthC: "\<And>i. i < 5 \<Longrightarrow> children (h ! i) = [[1, 3], [2], [], [4], []] ! i"
    using C len nth_map[of _ h children] by metis
  have nthT: "\<And>i. i < 5 \<Longrightarrow> title (h ! i) =
      [''root'', heading_title x1, heading_title x2, heading_title x3, heading_title x4] ! i"
    using T len nth_map[of _ h title] by metis
  have l0: "level (h ! 0) = 0" "children (h ! 0) = [1, 3]" "title (h ! 0) = ''root''"
    using nthL[of 0] nthC[of 0] nthT[of 0] by simp_all
  have l1: "level (h ! 1) = 1" "children (h ! 1) = [2]" "title (h ! 1) = heading_title x1"
    using nthL[of 1] nthC[of 1] nthT[of 1] by simp_all
  have l2: "level (h ! 2) = 2" "children (h ! 2) = []" "title (h ! 2) = heading_title x2"
    using nthL[of 2] nthC[of 2] nthT[of 2] by simp_all
  have l3: "level (h ! 3) = 1" "children (h ! 3) = [4]" "title (h ! 3) = heading_title x3"
    using nthL[of 3] nthC[of 3] nthT[of 3] by simp_all
  have l4: "level (h ! 4) = 3" "children (h ! 4) = []" "title (h ! 4) = heading_title x4"
    using nthL[of 4] nthC[of 4] nthT[of 4] by simp_all
  have q2: "read_section (Suc (Suc (Suc 0))) h 2 = Some (Section (heading_title x2) 2 (content (h ! 2)) [])"
    using read_leaf[of 2 h "Suc (Suc 0)"] len l2 by simp
  have q4: "read_section (Suc (Suc (Suc 0))) h 4 = Some (Section (heading_title x4) 3 (content (h ! 4)) [])"
    using read_leaf[of 4 h "Suc (Suc 0)"] len l4 by simp
  have q1: "read_section (Suc (Suc (Suc (Suc 0)))) h 1 =
      Some (Section (heading_title x1) 1 (content (h ! 1)) [Section (heading_title x2) 2 (content (h ! 2)) []])"
    using len l1 q2 by (subst read_section.simps) simp
  have q3: "read_section (Suc (Suc (Suc (Suc 0)))) h 3 =
      Some (Section (heading_title x3) 1 (content (h ! 3)) [Section (heading_title x4) 3 (content (h ! 4)) []])"
    using len l3 q4 by (subst read_section.simps) simp
  have q0: "read_section (Suc (Suc (Suc (Suc (Suc 0))))) h 0 =
      Some (Section ''root'' 0 (content (h ! 0))
        [Section (heading_title x1) 1 (content (h ! 1)) [Section (heading_title x2) 2 (content (h ! 2)) []],
         Section (heading_title x3) 1 (content (h ! 3)) [Section (heading_title x4) 3 (content (h ! 4)) []]])"
    using len l0 q1 q3 by (subst read_section.simps) simp
  have five: "(5::nat) = Suc (Suc (Suc (Suc (Suc 0))))" by simp
  from run q0 have A: "build_sections ps =
      Inr (Some (Section ''root'' 0 (content (h ! 0))
        [Section (heading_title x1) 1 (content (h ! 1)) [Section (heading_title x2) 2 (content (h ! 2)) []],
         Section (heading_title x3) 1 (content (h ! 3)) [Section (heading_title x4) 3 (content (h ! 4)) []]]))"
    unfolding build_sections_def by (simp add: h_def[symmetric] len five root_def)
  have B: "map heading_title (headings ps) = [heading_title x1, heading_title x2, heading_title x3, heading_title x4]"
    by (simp add: hs)
  show ?thesis by (intro exI) (rule conjI[OF A B])
qed


theorem headings_1_2_1_3_witness:
  "map snd (headings [(''intro'', None), (''A'', Some ''Heading1''), (''a1'', None), (''B'', Some ''h2''),
       (''C'', Some ''heading1''), ([], Some ''H3''), (''c'', None)]) = [1, 2, 1, 3]
   \<and> build_sections [(''intro'', None), (''A'', Some ''Heading1''), (''a1'', None), (''B'', Some ''h2''),
       (''C'', Some ''heading1''), ([], Some ''H3''), (''c'', None)]
     = Inr (Some (Section ''root'' 0 [''intro'']
         [Section ''A'' 1 [''a1''] [Section ''B'' 2 [] []],
          Section ''C'' 1 [] [Section ''Heading3'' 3 [''c''] []]]))"
proof -
  let ?ps = "[(''intro'', None), (''A'', Some ''Heading1''), (''a1'', None), (''B'', Some ''h2''),
       (''C'', Some ''heading1''), ([], Some ''H3''), (''c'', None)]"
  have a: "map snd (headings ?ps) = [1, 2, 1, 3]" by code_simp
  have b: "build_sections ?ps
     = Inr (Some (Section ''root'' 0 [''intro'']
         [Section ''A'' 1 [''a1''] [Section ''B'' 2 [] []],
          Section ''C'' 1 [] [Section ''Heading3'' 3 [''c''] []]]))" by code_simp
  from headings_1_2_1_3[OF a] have "\<exists>c0 c1 c2 c3 c4 t1 t2 t3 t4.
     build_sections ?ps =
       Inr (Some (Section ''root'' 0 c0
         [Section t1 1 c1 [Section t2 2 c2 []],
          Section t3 1 c3 [Section t4 3 c4 []]]))
     \<and> map heading_title (headings ?ps) = [t1, t2, t3, t4]" .
  with a b show ?thesis by blast
qed




text \<open>
  C5. \<open>_heading_level\<close> maps a raw style label (or none) to a heading level 1 to 4: the
  exact lookup table is consulted first (on the lower-cased label), then the
  case-insensitive regular expressions, whose level is clamped to 4; an absent, empty or
  unrecognised style yields no level. The labels with a level are exactly those made of
  the word "heading" in any mix of cases, any white space, a digit 1 to 4 and an optional
  "a" or "A", or of "h" or "H", a digit 1 to 4 and an optional "a" or "A", each possibly
  followed by one final newline; the level is the digit. "Heading2", "H3" and "H4a" are
  recognised through the table; "h1a", "H2A", "h3A", "Heading 2" and "HEADING  3A" only
  through the regular expressions; "Heading 2 Char", "Heading2b", "h 1", "h5", "Heading5"
  and "Normal" have no level.
\<close>

theorem heading_level_spec:
  "heading_level None = None \<and> heading_level (Some []) = None
   \<and> (\<forall>l. heading_level style = Some l \<longrightarrow> 1 \<le> l \<and> l \<le> 4)
   \<and> (\<forall>s l. s \<noteq> [] \<and> map_of HEADING_STYLE_LEVELS (str_lower s) = Some l \<longrightarrow> heading_level (Some s) = Some l)
   \<and> (\<forall>s. s \<noteq> [] \<and> map_of HEADING_STYLE_LEVELS (str_lower s) = None \<longrightarrow>
         heading_level (Some s) =
           map_option (\<lambda>d. min (digit_value d) 4) (case re_heading s of Some d \<Rightarrow> Some d | None \<Rightarrow> re_h s))
   \<and> (\<forall>s. map_of HEADING_STYLE_LEVELS (str_lower s) = None \<and> re_heading s = None \<and> re_h s = None \<longrightarrow>
         heading_level (Some s) = None)
   \<and> (\<forall>s l. heading_level (Some s) = Some l \<longleftrightarrow>
         (\<exists>h w d a n. s = h @ w @ [d] @ a @ n
            \<and> (list_all2 (\<lambda>c v. c \<in> set v) h [''hH'', ''eE'', ''aA'', ''dD'', ''iI'', ''nN'', ''gG'']
                 \<and> (\<forall>c \<in> set w. isspace c)
               \<or> list_all2 (\<lambda>c v. c \<in> set v) h [''hH''] \<and> w = [])
            \<and> (d, l) \<in> set [(CHR ''1'', 1), (CHR ''2'', 2), (CHR ''3'', 3), (CHR ''4'', 4)]
            \<and> a \<in> set [[], ''a'', ''A''] \<and> n \<in> set [[], [CHR 0x0A]]))
   \<and> heading_level (Some ''Heading2'') = Some 2 \<and> heading_level (Some ''H3'') = Some 3
   \<and> heading_level (Some ''H4a'') = Some 4 \<and> heading_level (Some ''HEADING  3A'') = Some 3
   \<and> heading_level (Some ''h1a'') = Some 1 \<and> heading_level (Some ''H2A'') = Some 2
   \<and> heading_level (Some ''h3A'') = Some 3 \<and> heading_level (Some ''Heading 2'') = Some 2
   \<and> heading_level (Some (''heading1'' @ [CHR 0x0A])) = Some 1
   \<and> heading_level (Some ''Heading 2 Char'') = None \<and> heading_level (Some ''Heading2b'') = None
   \<and> heading_level (Some ''h 1'') = None \<and> heading_level (Some ''h5'') = None
   \<and> heading_level (Some ''Heading5'') = None \<and> heading_level (Some ''Normal'') = None"
proof -
  have 1: "heading_level None = None \<and> heading_level (Some []) = None"
    by (simp add: heading_level_def)
  have 2: "\<forall>l. heading_level style = Some l \<longrightarrow> 1 \<le> l \<and> l \<le> 4"
    using heading_level_range by blast
  have 3: "\<forall>s l. s \<noteq> [] \<and> map_of HEADING_STYLE_LEVELS (str_lower s) = Some l \<longrightarrow> heading_level (Some s) = Some l"
    by (simp add: heading_level_def)
  have 4: "\<forall>s. s \<noteq> [] \<and> map_of HEADING_STYLE_LEVELS (str_lower s) = None \<longrightarrow>
         heading_level (Some s) =
           map_option (\<lambda>d. min (digit_value d) 4) (case re_heading s of Some d \<Rightarrow> Some d | None \<Rightarrow> re_h s)"
    by (auto simp: heading_level_def split: option.splits)
  have 5: "\<forall>s. map_of HEADING_STYLE_LEVELS (str_lower s) = None \<and> re_heading s = None \<and> re_h s = None \<longrightarrow>
         heading_level (Some s) = None"
    by (simp add: heading_level_def)
  have 6: "\<forall>s l. heading_level (Some s) = Some l \<longleftrightarrow>
         (\<exists>h w d a n. s = h @ w @ [d] @ a @ n
            \<and> (list_all2 (\<lambda>c v. c \<in> set v) h [''hH'', ''eE'', ''aA'', ''dD'', ''iI'', ''nN'', ''gG'']
                 \<and> (\<forall>c \<in> set w. isspace c)
               \<or> list_all2 (\<lambda>c v. c \<in> set v) h [''hH''] \<and> w = [])
            \<and> (d, l) \<in> set [(CHR ''1'', 1), (CHR ''2'', 2), (CHR ''3'', 3), (CHR ''4'', 4)]
            \<and> a \<in> set [[], ''a'', ''A''] \<and> n \<in> set [[], [CHR 0x0A]])"
    by (intro allI) (rule heading_level_forms)
  have 7: "heading_level (Some ''Heading2'') = Some 2 \<and> heading_level (Some ''H3'') = Some 3
     \<and> heading_level (Some ''H4a'') = Some 4 \<and> heading_level (Some ''HEADING  3A'') = Some 3"
    by code_simp
  have 8: "heading_level (Some ''h1a'') = Some 1 \<and> heading_level (Some ''H2A'') = Some 2
     \<and> heading_level (Some ''h3A'') = Some 3 \<and> heading_level (Some ''Heading 2'') = Some 2
     \<and> heading_level (Some (''heading1'' @ [CHR 0x0A])) = Some 1"
    by code_simp
  have 9: "heading_level (Some ''Heading 2 Char'') = None \<and> heading_level (Some ''Heading2b'') = None
     \<and> heading_level (Some ''h 1'') = None \<and> heading_level (Some ''h5'') = None
     \<and> heading_level (Some ''Heading5'') = None \<and> heading_level (Some ''Normal'') = None"
    by code_simp
  from 1 2 3 4 5 6 7 8 9 show ?thesis by (simp only: simp_thms)
qed

theorem heading_level_spec_witness:
  "heading_level (Some ''Heading 4A'') = Some 4 \<and> (1::int) \<le> 4 \<and> (4::int) \<le> 4
   \<and> map_of HEADING_STYLE_LEVELS (str_lower ''Heading 4A'') = None
   \<and> heading_level (Some ''h9'') = None
   \<and> ''H2a'' = ''H'' @ [] @ [CHR ''2''] @ ''a'' @ []
   \<and> heading_level (Some ''H2a'') = Some 2"
proof -
  have a: "heading_level (Some ''Heading 4A'') = Some 4" by code_simp
  have b: "map_of HEADING_STYLE_LEVELS (str_lower ''Heading 4A'') = None" by code_simp
  have c: "map_of HEADING_STYLE_LEVELS (str_lower ''h9'') = None \<and> re_heading ''h9'' = None \<and> re_h ''h9'' = None"
    by code_simp
  have d: "''H2a'' = ''H'' @ [] @ [CHR ''2''] @ ''a'' @ []
      \<and> (list_all2 (\<lambda>c v. c \<in> set v) ''H'' [''hH'', ''eE'', ''aA'', ''dD'', ''iI'', ''nN'', ''gG'']
                 \<and> (\<forall>c \<in> set []. isspace c)
               \<or> list_all2 (\<lambda>c v. c \<in> set v) ''H'' [''hH''] \<and> [] = ([] :: string))
      \<and> (CHR ''2'', 2 :: int) \<in> set [(CHR ''1'', 1), (CHR ''2'', 2), (CHR ''3'', 3), (CHR ''4'', 4)]
      \<and> ''a'' \<in> set [[], ''a'', ''A''] \<and> [] \<in> set [[], [CHR 0x0A]]"
    by simp
  from heading_level_spec[of "Some ''Heading 4A''"] a have "(1::int) \<le> 4 \<and> (4::int) \<le> 4" by blast
  moreover from heading_level_spec[of "Some ''Heading 4A''"] c have "heading_level (Some ''h9'') = None" by blast
  moreover from heading_level_spec[of "Some ''Heading 4A''"] d have "heading_level (Some ''H2a'') = Some 2" by blast
  ultimately show ?thesis using a b by simp
qed




text \<open>
  C7. A paragraph whose style is not a heading style, and whose stripped text is empty,
  matches the "Case No." pattern or matches the page-number pattern, is skipped: the loop
  body leaves the state as it is, whatever the state (the heading context) is, so the
  text is appended to no content list and the result is the one of the sequence without
  the paragraph. The check reads the paragraph's text only.
\<close>

theorem skipped_paragraph_not_collected:
  assumes "heading_level style = None"
    and "py_strip text = [] \<or> CASE_NO_PATTERN (py_strip text) \<or> PAGE_NUMBER_PATTERN (py_strip text)"
  shows "should_skip_paragraph text \<and> step st (text, style) = Inr st
     \<and> run st ((text, style) # ps) = run st ps
     \<and> build_sections (ps0 @ (text, style) # ps) = build_sections (ps0 @ ps)"
proof -
  from assms(2) have sk: "should_skip_paragraph text" by (auto simp: should_skip_paragraph_def)
  have stp: "\<And>s. step s (text, style) = Inr s" using assms(1) sk by (rule step_skip)
  then have r: "\<And>s. run s ((text, style) # ps) = run s ps" by simp
  have "run init_state (ps0 @ (text, style) # ps) = run init_state (ps0 @ ps)"
    by (simp only: run_append r)
  then have "build_sections (ps0 @ (text, style) # ps) = build_sections (ps0 @ ps)"
    by (simp only: build_sections_def)
  with sk stp r show ?thesis by blast
qed

theorem skipped_paragraph_not_collected_witness:
  "heading_level None = None \<and> CASE_NO_PATTERN (py_strip ''Case No. 24-1234'')
   \<and> PAGE_NUMBER_PATTERN (py_strip '' 12 OF 45 '') \<and> py_strip ''  '' = []
   \<and> should_skip_paragraph ''Case No. 24-1234''
   \<and> build_sections [(''A'', Some ''h1''), (''Case No. 24-1234'', None), (''x'', None), (''12'', Some ''Normal'')]
       = Inr (Some (Section ''root'' 0 [] [Section ''A'' 1 [''x''] []]))
   \<and> \<not> should_skip_paragraph ''Case No. 24-1234 is pending''"
proof -
  have a: "heading_level None = None" by code_simp
  have b: "CASE_NO_PATTERN (py_strip ''Case No. 24-1234'')" by code_simp
  have c: "PAGE_NUMBER_PATTERN (py_strip '' 12 OF 45 '')" by code_simp
  have d: "py_strip ''  '' = []" by code_simp
  have e: "build_sections [(''A'', Some ''h1''), (''x'', None), (''12'', Some ''Normal'')]
       = Inr (Some (Section ''root'' 0 [] [Section ''A'' 1 [''x''] []]))" by code_simp
  have f: "\<not> should_skip_paragraph ''Case No. 24-1234 is pending''" by code_simp
  from skipped_paragraph_not_collected[OF a, of "''Case No. 24-1234''" init_state
      "[(''x'', None), (''12'', Some ''Normal'')]" "[(''A'', Some ''h1'')]"] b
  have "should_skip_paragraph ''Case No. 24-1234''"
    and "build_sections ([(''A'', Some ''h1'')] @ (''Case No. 24-1234'', None) # [(''x'', None), (''12'', Some ''Normal'')])
       = build_sections ([(''A'', Some ''h1'')] @ [(''x'', None), (''12'', Some ''Normal'')])"
    by blast+
  with a b c d e f show ?thesis by simp
qed




text \<open>
  C10. The skip heuristics are not consulted for a paragraph whose style is a heading
  style: after any sequence of paragraphs, such a paragraph creates a new section of its
  level, titled with its text or with "Heading<L>" when the text is empty, appends it to
  the children of the section on top of the popped stack and pushes it, whatever its text.
\<close>

theorem heading_paragraph_never_skipped:
  assumes "heading_level style = Some l"
  shows "\<exists>st st'. run init_state ps = Inr st \<and> step st (text, style) = Inr st'
     \<and> run init_state (ps @ [(text, style)]) = Inr st'
     \<and> stack st' = pop_while (heap st) (stack st) l @ [length (heap st)]
     \<and> length (heap st') = Suc (length (heap st))
     \<and> heap st' ! length (heap st) =
          \<lparr>title = (if text = [] then ''Heading'' @ py_str l else text), level = l, content = [], children = []\<rparr>
     \<and> pop_while (heap st) (stack st) l \<noteq> []
     \<and> length (heap st) \<in> set (children (heap st' ! last (pop_while (heap st) (stack st) l)))"
proof -
  from run_wf[OF wf_init, of ps] obtain st where st: "run init_state ps = Inr st" and wf: "wf_state st"
    by blast
  from step_heading_wf[OF wf assms, of "text"] obtain st' where
    s: "step st (text, style) = Inr st'"
    and k: "stack st' = pop_while (heap st) (stack st) l @ [length (heap st)]"
      "pop_while (heap st) (stack st) l \<noteq> []"
      "length (heap st') = Suc (length (heap st))"
      "heap st' ! length (heap st) = new_section text l"
      "length (heap st) \<in> set (children (heap st' ! last (pop_while (heap st) (stack st) l)))"
    by blast
  from st s have r: "run init_state (ps @ [(text, style)]) = Inr st'" by (simp add: run_append)
  have n: "new_section text l =
     \<lparr>title = (if text = [] then ''Heading'' @ py_str l else text), level = l, content = [], children = []\<rparr>"
    by (simp add: new_section_def)
  from st s r k n show ?thesis by (intro exI[of _ st] exI[of _ st']) simp
qed

theorem heading_paragraph_never_skipped_witness:
  "should_skip_paragraph ''Case No. 24-1234'' \<and> should_skip_paragraph ''12'' \<and> should_skip_paragraph ''''
   \<and> build_sections [(''Case No. 24-1234'', Some ''Heading1''), (''12'', Some ''h2''), ('''', Some ''H3'')]
       = Inr (Some (Section ''root'' 0 []
           [Section ''Case No. 24-1234'' 1 [] [Section ''12'' 2 [] [Section ''Heading3'' 3 [] []]]]))
   \<and> (\<exists>st st'. run init_state [(''Case No. 24-1234'', Some ''Heading1''), (''12'', Some ''h2'')] = Inr st
        \<and> step st ('''', Some ''H3'') = Inr st'
        \<and> title (heap st' ! length (heap st)) = ''Heading3'')"
proof -
  have a: "should_skip_paragraph ''Case No. 24-1234'' \<and> should_skip_paragraph ''12'' \<and> should_skip_paragraph ''''"
    by code_simp
  have b: "build_sections [(''Case No. 24-1234'', Some ''Heading1''), (''12'', Some ''h2''), ('''', Some ''H3'')]
       = Inr (Some (Section ''root'' 0 []
           [Section ''Case No. 24-1234'' 1 [] [Section ''12'' 2 [] [Section ''Heading3'' 3 [] []]]]))"
    by code_simp
  have h: "heading_level (Some ''H3'') = Some 3" by code_simp
  have p: "''Heading'' @ py_str 3 = ''Heading3''" by code_simp
  from heading_paragraph_never_skipped[OF h, of "[(''Case No. 24-1234'', Some ''Heading1''), (''12'', Some ''h2'')]" "''''"]
  obtain st st' where "run init_state [(''Case No. 24-1234'', Some ''Heading1''), (''12'', Some ''h2'')] = Inr st"
    "step st ('''', Some ''H3'') = Inr st'"
    "heap st' ! length (heap st) = \<lparr>title = ''Heading'' @ py_str 3, level = 3, content = [], children = []\<rparr>"
    by auto
  with p have "\<exists>st st'. run init_state [(''Case No. 24-1234'', Some ''Heading1''), (''12'', Some ''h2'')] = Inr st
        \<and> step st ('''', Some ''H3'') = Inr st'
        \<and> title (heap st' ! length (heap st)) = ''Heading3''"
    by (intro exI[of _ st] exI[of _ st']) simp
  with a b show ?thesis by blast
qed

end
